theory Spec2Isabelle
  imports Main
begin

section \<open>The JavaScript values and heap that deepClone works on\<close>

text \<open>
  The function under study is \<^verbatim>\<open>deepClone\<close> of \<^verbatim>\<open>src/inheritance.js\<close> (lines 706 to 721):
  \<^verbatim>\<open>
  function deepClone(value, seen = new WeakMap()) {
    if (value === null || typeof value !== 'object') return value;
    if (seen.has(value)) return seen.get(value);
    if (Array.isArray(value)) {
      const arr = [];
      seen.set(value, arr);
      for (const v of value) arr.push(deepClone(v, seen));
      return arr;
    }
    const out = {};
    seen.set(value, out);
    for (const key of Object.keys(value)) {
      out[key] = deepClone(value[key], seen);
    }
    return out;
  }
  \<close>
  Objects have identity and are mutated in place, so the model carries an explicit heap:
  a list of objects, an address being an index into it, and allocation appending at the
  end. A value is a primitive, a function or a reference to a heap object. The payload
  of a number is never inspected by deepClone; integers stand for it.

  A function is not cloned (\<^verbatim>\<open>typeof\<close> gives \<^verbatim>\<open>'function'\<close>) and deepClone never reads
  or writes it, so the model does not keep functions in the heap. A function is a value
  made of its identity and of the data properties that an assignment finds from it
  upwards, before \<^verbatim>\<open>Function.prototype\<close>: its own ones, then those of what it inherits
  from (the class it extends), each with its key and whether it is writable. For
  \<^verbatim>\<open>() => {}\<close> these are \<^verbatim>\<open>length\<close> and \<^verbatim>\<open>name\<close>, read-only; \<^verbatim>\<open>function f() {}\<close> has
  \<^verbatim>\<open>prototype\<close> as well, writable, and an engine may give such a function, which
  is not strict, its own read-only \<^verbatim>\<open>caller\<close> and \<^verbatim>\<open>arguments\<close>. They matter in one
  place: the assignment \<^verbatim>\<open>out[key] = ...\<close> when a function has come into the prototype
  chain of \<open>out\<close>.
\<close>

type_synonym addr = nat

datatype val =
    Undefined
  | Null
  | Bool bool
  | Num int
  | Str string
  | Sym nat
  | Fn nat "(string \<times> bool) list"
  | Ref addr

text \<open>A property key is a string or a symbol.\<close>

datatype pkey = SKey string | SymKey nat

text \<open>
  The \<open>[[Prototype]]\<close> slot of an ordinary object: \<^verbatim>\<open>null\<close>, the intrinsic
  \<^verbatim>\<open>Object.prototype\<close>, a function, or a heap object.
\<close>

datatype proto = PNull | PObject | PFn nat "(string \<times> bool) list" | PRef addr

text \<open>
  A heap object is an array, given by the sequence of values its iterator yields (a hole
  of a sparse array reads as \<^verbatim>\<open>undefined\<close>; deepClone reads nothing else of an array),
  or any other object of \<^verbatim>\<open>typeof 'object'\<close>, given by its prototype and its own data
  properties in the order of \<open>[[OwnPropertyKeys]]\<close>, each with its key, its enumerable
  flag and its value. Accessor properties and proxies are outside the model; a function
  is taken to have no accessor property of its own and to inherit from
  \<^verbatim>\<open>Function.prototype\<close>. The intrinsic objects \<^verbatim>\<open>Object.prototype\<close>,
  \<^verbatim>\<open>Function.prototype\<close> and \<^verbatim>\<open>Array.prototype\<close> are as the language creates them (the
  file does not change them).
\<close>

datatype obj =
    Arr "val list"
  | Obj proto "(pkey \<times> bool \<times> val) list"

type_synonym heap = "obj list"

text \<open>The \<^verbatim>\<open>WeakMap\<close> named \<^verbatim>\<open>seen\<close>: from the identity of a source object to its clone.\<close>

type_synonym seen = "addr \<rightharpoonup> addr"

type_synonym state = "heap \<times> seen"

datatype error = TypeError

text \<open>
  The outcome of a call: it returns, it throws (the heap as it is at the throw is kept),
  or the fuel of the model ran out before it finished.
\<close>

datatype 'a outcome = Return 'a | Throw error heap | Timeout

section \<open>Property access\<close>

text \<open>\<^verbatim>\<open>Object.keys(value)\<close>: the own enumerable string keys, in order.\<close>

fun object_keys :: "(pkey \<times> bool \<times> val) list \<Rightarrow> string list" where
  "object_keys [] = []"
| "object_keys ((SKey k, e, v) # ps) = (if e then k # object_keys ps else object_keys ps)"
| "object_keys ((SymKey s, e, v) # ps) = object_keys ps"

text \<open>The value of the own data property \<open>key\<close> in a property list, if there is one.\<close>

fun own_prop :: "(pkey \<times> bool \<times> val) list \<Rightarrow> string \<Rightarrow> val option" where
  "own_prop [] key = None"
| "own_prop ((k, e, v) # ps) key = (if k = SKey key then Some v else own_prop ps key)"

text \<open>
  \<^verbatim>\<open>value[key]\<close> for a key that \<^verbatim>\<open>Object.keys(value)\<close> listed: the own data property is
  found first, so the prototype chain of \<open>value\<close> is never consulted. (A key that is not
  own reads as \<^verbatim>\<open>undefined\<close> here; deepClone never asks for one.)
\<close>

definition prop_val :: "(pkey \<times> bool \<times> val) list \<Rightarrow> string \<Rightarrow> val" where
  "prop_val ps key = (case own_prop ps key of Some v \<Rightarrow> v | None \<Rightarrow> Undefined)"

definition get_prop :: "heap \<Rightarrow> addr \<Rightarrow> string \<Rightarrow> val" where
  "get_prop h a key =
     (if a < length h then
        (case h ! a of Obj p ps \<Rightarrow> prop_val ps key | Arr vs \<Rightarrow> Undefined)
      else Undefined)"

text \<open>\<^verbatim>\<open>arr.push(c)\<close>.\<close>

definition push :: "heap \<Rightarrow> addr \<Rightarrow> val \<Rightarrow> heap" where
  "push h arr c =
     (if arr < length h then
        (case h ! arr of Arr vs \<Rightarrow> h[arr := Arr (vs @ [c])] | Obj p ps \<Rightarrow> h)
      else h)"

text \<open>
  The loop of \<open>OrdinarySetPrototypeOf\<close>: follow the prototype chain that starts at \<open>p\<close>
  and report whether it meets the object \<open>out\<close>. The chain of an intrinsic, of a function
  or of an array never leads to \<open>out\<close>, an object that was created after them and whose
  address they do not hold. The walk is given as many steps as the heap has objects plus
  one; a chain that is still running then is cyclic, and the loop of the specification
  would never end: the result is \<open>None\<close>.
\<close>

fun proto_walk :: "heap \<Rightarrow> nat \<Rightarrow> proto \<Rightarrow> addr \<Rightarrow> bool option" where
  "proto_walk h 0 p out = None"
| "proto_walk h (Suc k) (PRef a) out =
     (if a = out then Some True
      else if a < length h then
        (case h ! a of Obj q ps \<Rightarrow> proto_walk h k q out | Arr vs \<Rightarrow> Some False)
      else Some False)"
| "proto_walk h (Suc k) PNull out = Some False"
| "proto_walk h (Suc k) PObject out = Some False"
| "proto_walk h (Suc k) (PFn f fs) out = Some False"

text \<open>
  The setter of the accessor \<^verbatim>\<open>Object.prototype.__proto__\<close>, called with \<open>out\<close> as
  \<^verbatim>\<open>this\<close>: a value that is neither an object nor \<^verbatim>\<open>null\<close> is ignored; otherwise
  \<open>out.[[SetPrototypeOf]]\<close> runs, and the setter throws a TypeError when that refuses
  because the new prototype chain would be cyclic.
\<close>

fun proto_of_val :: "val \<Rightarrow> proto option" where
  "proto_of_val Null = Some PNull"
| "proto_of_val (Fn f fs) = Some (PFn f fs)"
| "proto_of_val (Ref a) = Some (PRef a)"
| "proto_of_val v = None"

definition set_proto :: "heap \<Rightarrow> addr \<Rightarrow> val \<Rightarrow> heap outcome" where
  "set_proto h out c =
     (case proto_of_val c of
        None \<Rightarrow> Return h
      | Some q \<Rightarrow>
          (case h ! out of
             Obj p ps \<Rightarrow>
               if q = p then Return h
               else (case proto_walk h (Suc (length h)) q out of
                       Some True \<Rightarrow> Throw TypeError h
                     | Some False \<Rightarrow> Return (h[out := Obj q ps])
                     | None \<Rightarrow> Timeout)
           | Arr vs \<Rightarrow> Return h))"

text \<open>
  What \<open>[[Set]]\<close> finds for a key when it looks along a prototype chain.
  \<open>Assignable\<close>: no property of that name, or a writable data property; the assignment
  then creates an own property on the receiver. \<open>ReadOnly\<close>: a data property that is not
  writable; \<open>[[Set]]\<close> returns false, which the assignment ignores: the file has no
  \<^verbatim>\<open>'use strict'\<close> and no \<^verbatim>\<open>import\<close> or \<^verbatim>\<open>export\<close>, so deepClone is not strict code
  (in strict code the assignment would throw a TypeError). \<open>ProtoSetter\<close>: the accessor
  \<^verbatim>\<open>Object.prototype.__proto__\<close>. \<open>Thrower\<close>: one of the accessors
  \<^verbatim>\<open>Function.prototype.caller\<close> and \<^verbatim>\<open>Function.prototype.arguments\<close>, whose setter
  throws a TypeError.
\<close>

datatype slot = Assignable | ReadOnly | ProtoSetter | Thrower

text \<open>
  \<^verbatim>\<open>Object.prototype\<close> holds writable methods and the accessor \<^verbatim>\<open>__proto__\<close>.
  \<^verbatim>\<open>Function.prototype\<close> holds \<^verbatim>\<open>length\<close> and \<^verbatim>\<open>name\<close> read-only, the two throwing
  accessors and writable methods, and inherits from \<^verbatim>\<open>Object.prototype\<close>. A function
  comes first with the data properties it is given with. An array holds its indices and
  \<^verbatim>\<open>length\<close>, all writable, and inherits the writable methods of \<^verbatim>\<open>Array.prototype\<close>
  and then \<^verbatim>\<open>Object.prototype\<close>.
\<close>

definition object_prototype_slot :: "string \<Rightarrow> slot" where
  "object_prototype_slot key = (if key = ''__proto__'' then ProtoSetter else Assignable)"

definition function_prototype_slot :: "string \<Rightarrow> slot" where
  "function_prototype_slot key =
     (if key = ''length'' \<or> key = ''name'' then ReadOnly
      else if key = ''caller'' \<or> key = ''arguments'' then Thrower
      else object_prototype_slot key)"

fun fn_slot :: "(string \<times> bool) list \<Rightarrow> string \<Rightarrow> slot" where
  "fn_slot [] key = function_prototype_slot key"
| "fn_slot ((k, w) # fs) key =
     (if k = key then (if w then Assignable else ReadOnly) else fn_slot fs key)"

text \<open>
  The walk of \<open>[[Set]]\<close> up the prototype chain that starts at \<open>p\<close>, to the first
  object that has the key. An object of the heap on that chain is a clone made by this
  call (lemma \<open>deepClone_shape\<close>), whose properties are all writable. The walk has the
  same bound as \<open>proto_walk\<close>, and \<open>None\<close> again stands for a walk that does not end.
\<close>

fun find_slot :: "heap \<Rightarrow> nat \<Rightarrow> proto \<Rightarrow> string \<Rightarrow> slot option" where
  "find_slot h 0 p key = None"
| "find_slot h (Suc k) PNull key = Some Assignable"
| "find_slot h (Suc k) PObject key = Some (object_prototype_slot key)"
| "find_slot h (Suc k) (PFn f fs) key = Some (fn_slot fs key)"
| "find_slot h (Suc k) (PRef a) key =
     (if a < length h then
        (case h ! a of
           Arr vs \<Rightarrow> Some (object_prototype_slot key)
         | Obj q ps \<Rightarrow>
             (case own_prop ps key of
                Some v \<Rightarrow> Some Assignable
              | None \<Rightarrow> find_slot h k q key))
      else Some Assignable)"

text \<open>
  The assignment \<^verbatim>\<open>out[key] = c\<close>, where \<open>out\<close> is the object that this call created
  with \<^verbatim>\<open>{}\<close>. \<^verbatim>\<open>Object.keys\<close> lists every key once, so \<open>key\<close> is not yet an own
  property of \<open>out\<close>, and \<open>[[Set]]\<close> goes to the prototype of \<open>out\<close>. What it finds
  there decides: an own enumerable data property is created on \<open>out\<close>; or nothing
  happens; or the setter of \<^verbatim>\<open>__proto__\<close> runs with \<open>out\<close> as \<^verbatim>\<open>this\<close>; or a TypeError
  is thrown. The prototype of \<open>out\<close> is \<^verbatim>\<open>Object.prototype\<close> until the key
  \<^verbatim>\<open>__proto__\<close> comes, so that key always reaches the setter, and every other key
  before it creates a property.
\<close>

definition put_prop :: "heap \<Rightarrow> addr \<Rightarrow> string \<Rightarrow> val \<Rightarrow> heap outcome" where
  "put_prop h out key c =
     (if out < length h then
        (case h ! out of
           Obj p ps \<Rightarrow>
             (case find_slot h (Suc (length h)) p key of
                Some Assignable \<Rightarrow> Return (h[out := Obj p (ps @ [(SKey key, True, c)])])
              | Some ReadOnly \<Rightarrow> Return h
              | Some ProtoSetter \<Rightarrow> set_proto h out c
              | Some Thrower \<Rightarrow> Throw TypeError h
              | None \<Rightarrow> Timeout)
         | Arr vs \<Rightarrow> Return h)
      else Return h)"

section \<open>deepClone\<close>

text \<open>
  \<^verbatim>\<open>for (const v of value) arr.push(deepClone(v, seen));\<close>
  The recursive call is the parameter \<open>f\<close>. The array iterator reads \<open>value\<close> as the loop
  goes; \<open>value\<close> is not written during the loop (only objects allocated by the call are,
  see \<open>deepClone_grows\<close> below), so the loop runs over the elements read at its start.
\<close>

fun cloneElems ::
  "(val \<Rightarrow> state \<Rightarrow> (val \<times> state) outcome) \<Rightarrow> addr \<Rightarrow> val list \<Rightarrow> state \<Rightarrow> state outcome"
where
  "cloneElems f arr [] st = Return st"
| "cloneElems f arr (v # vs) st =
     (case f v st of
        Return (c, (h, sn)) \<Rightarrow> cloneElems f arr vs (push h arr c, sn)
      | Throw e h \<Rightarrow> Throw e h
      | Timeout \<Rightarrow> Timeout)"

text \<open>
  \<^verbatim>\<open>for (const key of Object.keys(value)) { out[key] = deepClone(value[key], seen); }\<close>
  The list of keys is the array that \<^verbatim>\<open>Object.keys\<close> returned; \<^verbatim>\<open>value[key]\<close> is read
  from the heap as it is at that iteration.
\<close>

fun cloneProps ::
  "(val \<Rightarrow> state \<Rightarrow> (val \<times> state) outcome) \<Rightarrow> addr \<Rightarrow> addr \<Rightarrow> string list \<Rightarrow> state
     \<Rightarrow> state outcome"
where
  "cloneProps f out a [] st = Return st"
| "cloneProps f out a (key # keys) st =
     (case f (get_prop (fst st) a key) st of
        Return (c, (h, sn)) \<Rightarrow>
          (case put_prop h out key c of
             Return h' \<Rightarrow> cloneProps f out a keys (h', sn)
           | Throw e h' \<Rightarrow> Throw e h'
           | Timeout \<Rightarrow> Timeout)
      | Throw e h \<Rightarrow> Throw e h
      | Timeout \<Rightarrow> Timeout)"

text \<open>
  The function itself. The fuel bounds the depth of the recursion: a call with fuel 0
  has not finished. A reference is an object (\<^verbatim>\<open>typeof value === 'object'\<close>, not null)
  when it points into the heap; an address outside the heap denotes no object of the
  program and is passed through like any value that is not an object.
\<close>

primrec deepClone :: "nat \<Rightarrow> val \<Rightarrow> state \<Rightarrow> (val \<times> state) outcome" where
  "deepClone 0 v st = Timeout"
| "deepClone (Suc n) v st =
     (case v of
        Ref a \<Rightarrow>
          (if a < length (fst st) then
             (case snd st a of
                Some c \<Rightarrow> Return (Ref c, st)
              | None \<Rightarrow>
                  (case fst st ! a of
                     Arr vs \<Rightarrow>
                       (let arr = length (fst st) in
                        case cloneElems (deepClone n) arr vs
                               (fst st @ [Arr []], (snd st)(a \<mapsto> arr)) of
                          Return st' \<Rightarrow> Return (Ref arr, st')
                        | Throw e h \<Rightarrow> Throw e h
                        | Timeout \<Rightarrow> Timeout)
                   | Obj p ps \<Rightarrow>
                       (let out = length (fst st) in
                        case cloneProps (deepClone n) out a (object_keys ps)
                               (fst st @ [Obj PObject []], (snd st)(a \<mapsto> out)) of
                          Return st' \<Rightarrow> Return (Ref out, st')
                        | Throw e h \<Rightarrow> Throw e h
                        | Timeout \<Rightarrow> Timeout)))
           else Return (v, st))
      | _ \<Rightarrow> Return (v, st))"

text \<open>
  A call from outside, \<^verbatim>\<open>deepClone(value)\<close>: the default parameter makes a new, empty
  \<^verbatim>\<open>WeakMap\<close>, which does not outlive the call, so only the value and the heap come back.
\<close>

definition clone :: "nat \<Rightarrow> val \<Rightarrow> heap \<Rightarrow> (val \<times> heap) outcome" where
  "clone n v h =
     (case deepClone n v (h, Map.empty) of
        Return (r, (h', sn)) \<Rightarrow> Return (r, h')
      | Throw e h' \<Rightarrow> Throw e h'
      | Timeout \<Rightarrow> Timeout)"

section \<open>Notions the properties are stated with\<close>

text \<open>
  The test of the first line of deepClone, negated: \<open>value\<close> is an object when it is not
  \<^verbatim>\<open>null\<close> and \<^verbatim>\<open>typeof value === 'object'\<close>. Everything else is what the
  specification calls a primitive.
\<close>

fun is_object :: "heap \<Rightarrow> val \<Rightarrow> bool" where
  "is_object h (Ref a) = (a < length h)"
| "is_object h v = False"

text \<open>\<^verbatim>\<open>Array.isArray\<close>, of a heap object.\<close>

fun isArray :: "obj \<Rightarrow> bool" where
  "isArray (Arr vs) = True"
| "isArray (Obj p ps) = False"

text \<open>The heap \<open>h'\<close> still holds every object of \<open>h\<close>, at its address and unchanged.\<close>

definition extends :: "heap \<Rightarrow> heap \<Rightarrow> bool" where
  "extends h h' \<longleftrightarrow> take (length h) h' = h"

text \<open>
  A statement about an outcome: \<open>R\<close> of what is returned, \<open>T\<close> of the heap at a
  throw, \<open>D\<close> when the fuel ran out.
\<close>

fun outcome_sat :: "('a \<Rightarrow> bool) \<Rightarrow> (heap \<Rightarrow> bool) \<Rightarrow> bool \<Rightarrow> 'a outcome \<Rightarrow> bool" where
  "outcome_sat R T D (Return x) = R x"
| "outcome_sat R T D (Throw e h) = T h"
| "outcome_sat R T D Timeout = D"

text \<open>
  Structural comparison of two values of one heap, to a depth of at most \<open>n\<close>: the same
  kind of container, the same own enumerable string keys, the same elements in the same
  order, the same primitive leaves.
\<close>

primrec deep_equal :: "nat \<Rightarrow> heap \<Rightarrow> val \<Rightarrow> val \<Rightarrow> bool" where
  "deep_equal 0 h v w = False"
| "deep_equal (Suc n) h v w =
     (if is_object h v \<and> is_object h w then
        (case (v, w) of
           (Ref a, Ref b) \<Rightarrow>
             (case (h ! a, h ! b) of
                (Arr xs, Arr ys) \<Rightarrow> list_all2 (deep_equal n h) xs ys
              | (Obj p ps, Obj q qs) \<Rightarrow>
                  set (object_keys ps) = set (object_keys qs) \<and>
                  list_all (\<lambda>k. deep_equal n h (get_prop h a k) (get_prop h b k))
                    (object_keys ps)
              | _ \<Rightarrow> False)
         | _ \<Rightarrow> False)
      else v = w)"

text \<open>
  The addresses a value, a prototype slot and an object hold. An object holds the
  addresses of its elements, of the values of all its properties (whatever their key and
  flag) and of its prototype. Functions are not heap objects of the model and hold none.
\<close>

fun val_addrs :: "val \<Rightarrow> addr set" where
  "val_addrs (Ref a) = {a}"
| "val_addrs v = {}"

fun proto_addrs :: "proto \<Rightarrow> addr set" where
  "proto_addrs (PRef a) = {a}"
| "proto_addrs p = {}"

fun refs_of :: "obj \<Rightarrow> addr set" where
  "refs_of (Arr vs) = (\<Union>v \<in> set vs. val_addrs v)"
| "refs_of (Obj p ps) = proto_addrs p \<union> (\<Union>x \<in> set ps. val_addrs (snd (snd x)))"

text \<open>
  The heaps of a JavaScript program: an object has every property key once, and there is
  no dangling reference, that is, every address held by an object, and the address of
  the value handed to deepClone, is the address of an object.
\<close>

fun distinct_keys :: "obj \<Rightarrow> bool" where
  "distinct_keys (Arr vs) = True"
| "distinct_keys (Obj p ps) = distinct (map fst ps)"

definition wf_heap :: "heap \<Rightarrow> bool" where
  "wf_heap h \<longleftrightarrow> (\<forall>ob \<in> set h. distinct_keys ob \<and> (\<forall>x \<in> refs_of ob. x < length h))"

definition wf_val :: "heap \<Rightarrow> val \<Rightarrow> bool" where
  "wf_val h v \<longleftrightarrow> (\<forall>x \<in> val_addrs v. x < length h)"

text \<open>
  The objects reachable from a value in a heap, through every reference an object holds.
\<close>

inductive_set reach :: "heap \<Rightarrow> val \<Rightarrow> addr set" for h :: heap and v :: val where
  root: "a \<in> val_addrs v \<Longrightarrow> a < length h \<Longrightarrow> a \<in> reach h v"
| step: "a \<in> reach h v \<Longrightarrow> b \<in> refs_of (h ! a) \<Longrightarrow> b < length h \<Longrightarrow> b \<in> reach h v"

text \<open>
  With \<open>h0\<close> the heap at the start of the outermost call: the addresses allocated since,
  and the prototype links among the objects at those addresses.
\<close>

definition fresh :: "heap \<Rightarrow> heap \<Rightarrow> addr set" where
  "fresh h0 h = {length h0..<length h}"

definition proto_edges :: "nat \<Rightarrow> heap \<Rightarrow> (addr \<times> addr) set" where
  "proto_edges n0 h = {(ob, x). n0 \<le> ob \<and> ob < length h \<and> (\<exists>ps. h ! ob = Obj (PRef x) ps)}"

text \<open>
  What holds of the state all through a call that started from the heap \<open>h0\<close> with an
  empty map: the objects of \<open>h0\<close> are as they were; the map sends objects of \<open>h0\<close> to
  new objects; a new object holds addresses of new objects only; and the prototype links
  among the new objects form no cycle.
\<close>

definition shape :: "heap \<Rightarrow> state \<Rightarrow> bool" where
  "shape h0 st \<longleftrightarrow>
     extends h0 (fst st) \<and>
     (\<forall>a c. snd st a = Some c \<longrightarrow> a < length h0 \<and> c \<in> fresh h0 (fst st)) \<and>
     (\<forall>ob \<in> fresh h0 (fst st). refs_of (fst st ! ob) \<subseteq> fresh h0 (fst st)) \<and>
     acyclic (proto_edges (length h0) (fst st))"

text \<open>The number of objects of \<open>h0\<close> that are not in the map yet.\<close>

definition unseen :: "heap \<Rightarrow> seen \<Rightarrow> nat" where
  "unseen h0 sn = card {a. a < length h0 \<and> sn a = None}"

text \<open>
  The image of a value under a map from source objects to their clones: a reference to a
  source object becomes the reference to its clone, anything else stays.
\<close>

fun clone_val :: "seen \<Rightarrow> val \<Rightarrow> val" where
  "clone_val sn (Ref a) = (case sn a of Some c \<Rightarrow> Ref c | None \<Rightarrow> Ref a)"
| "clone_val sn v = v"

text \<open>
  The clone of an object as the specification describes it, given the map from source
  objects to their clones: for an array, a new array that holds the images of the
  elements, in order; for any other object, a new plain object (its prototype is
  \<^verbatim>\<open>Object.prototype\<close>) whose fields are the keys of \<^verbatim>\<open>Object.keys\<close> of the source, in
  order, each field holding the image of the value of that field in the source.
  \<open>cloned_props\<close> is the list of those fields for a list of keys.
\<close>

definition cloned_props ::
  "seen \<Rightarrow> (pkey \<times> bool \<times> val) list \<Rightarrow> string list \<Rightarrow> (pkey \<times> bool \<times> val) list"
where
  "cloned_props sn ps keys = map (\<lambda>k. (SKey k, True, clone_val sn (prop_val ps k))) keys"

fun spec_clone :: "seen \<Rightarrow> obj \<Rightarrow> obj" where
  "spec_clone sn (Arr vs) = Arr (map (clone_val sn) vs)"
| "spec_clone sn (Obj p ps) = Obj PObject (cloned_props sn ps (object_keys ps))"

text \<open>
  The values deepClone reads from an object: the elements of an array, the values of the
  keys of \<^verbatim>\<open>Object.keys\<close> of another object. The objects reached from a value through
  them are the nodes of the value graph of the specification.
\<close>

fun child_vals :: "obj \<Rightarrow> val list" where
  "child_vals (Arr vs) = vs"
| "child_vals (Obj p ps) = map (prop_val ps) (object_keys ps)"

inductive_set traversed :: "heap \<Rightarrow> val \<Rightarrow> addr set" for h :: heap and v :: val where
  root: "a \<in> val_addrs v \<Longrightarrow> a < length h \<Longrightarrow> a \<in> traversed h v"
| step: "a \<in> traversed h v \<Longrightarrow> w \<in> set (child_vals (h ! a)) \<Longrightarrow> b \<in> val_addrs w \<Longrightarrow>
         b < length h \<Longrightarrow> b \<in> traversed h v"

text \<open>An object with an own enumerable property named \<^verbatim>\<open>__proto__\<close>.\<close>

fun has_proto_key :: "obj \<Rightarrow> bool" where
  "has_proto_key (Arr vs) = False"
| "has_proto_key (Obj p ps) = (''__proto__'' \<in> set (object_keys ps))"

text \<open>
  Invariants of the traversal, with \<open>h0\<close> the heap at the start. \<open>one_to_one\<close>: the
  map is injective, from objects of \<open>h0\<close> onto the objects allocated since.
  \<open>copied\<close>: for every object of the set \<open>B\<close> (the objects deepClone is done with), the
  clone is what the specification says, and the map knows all its children. \<open>progress\<close>:
  both, for a state reached from the map \<open>sn1\<close>, with everything entered since
  \<open>sn1\<close> done. \<open>call_post\<close> and \<open>call_ok\<close>: what a call returns, and that a function
  satisfies it whenever it returns, and does not throw.
\<close>

definition one_to_one :: "heap \<Rightarrow> state \<Rightarrow> bool" where
  "one_to_one h0 st \<longleftrightarrow>
     extends h0 (fst st) \<and> dom (snd st) \<subseteq> {..<length h0} \<and>
     inj_on (snd st) (dom (snd st)) \<and> ran (snd st) = fresh h0 (fst st)"

definition copied :: "heap \<Rightarrow> state \<Rightarrow> addr set \<Rightarrow> bool" where
  "copied h0 st B \<longleftrightarrow>
     B \<subseteq> dom (snd st) \<and>
     (\<forall>a \<in> B. fst st ! the (snd st a) = spec_clone (snd st) (h0 ! a) \<and>
               (\<forall>w \<in> set (child_vals (h0 ! a)). val_addrs w \<subseteq> dom (snd st)))"

definition progress :: "heap \<Rightarrow> addr set \<Rightarrow> addr set \<Rightarrow> seen \<Rightarrow> state \<Rightarrow> bool" where
  "progress h0 T B sn1 s \<longleftrightarrow>
     one_to_one h0 s \<and> copied h0 s (B \<union> (dom (snd s) - dom sn1)) \<and>
     dom (snd s) \<subseteq> T \<and> sn1 \<subseteq>\<^sub>m snd s"

definition call_post ::
  "heap \<Rightarrow> addr set \<Rightarrow> addr set \<Rightarrow> state \<Rightarrow> val \<Rightarrow> val \<times> state \<Rightarrow> bool"
where
  "call_post h0 T B st v x \<longleftrightarrow>
     progress h0 T B (snd st) (snd x) \<and> extends (fst st) (fst (snd x)) \<and>
     fst x = clone_val (snd (snd x)) v \<and> val_addrs v \<subseteq> dom (snd (snd x))"

definition call_ok ::
  "heap \<Rightarrow> addr set \<Rightarrow> (val \<Rightarrow> state \<Rightarrow> (val \<times> state) outcome) \<Rightarrow> bool"
where
  "call_ok h0 T f \<longleftrightarrow>
     (\<forall>v st B. one_to_one h0 st \<and> copied h0 st B \<and> dom (snd st) \<subseteq> T \<and> val_addrs v \<subseteq> T \<longrightarrow>
        outcome_sat (call_post h0 T B st v) (\<lambda>h'. False) True (f v st))"

text \<open>
  Heaps for the examples. \<open>arrow_fn f\<close> is a function as \<^verbatim>\<open>() => {}\<close> makes it. \<^verbatim>\<open>let c = {}; c.self = c;\<close> is the object at address 0 of \<open>self_heap\<close>;
  \<open>self_heap_cloned\<close> is that heap after \<^verbatim>\<open>deepClone(c)\<close>. \<open>shared_heap\<close> is
  \<^verbatim>\<open>const s = [1, null, f]; const v = {a: s, b: s}; s[1] = v;\<close> with \<open>v\<close> at address 0 and
  \<open>s\<close> at address 1. \<open>alias_heap\<close> is
  \<^verbatim>\<open>const s = JSON.parse('{"__proto__": null}'); const v = {a: s, ["__proto__"]: s};\<close>
  with \<open>v\<close> at address 0 and \<open>s\<close> at address 1: both objects have an own enumerable
  property named \<^verbatim>\<open>__proto__\<close>, and the two fields of \<open>v\<close> hold the same object.
  \<open>alias_heap_cloned\<close> is that heap after \<^verbatim>\<open>deepClone(v)\<close>.
\<close>

definition arrow_fn :: "nat \<Rightarrow> val" where
  "arrow_fn f = Fn f [(''length'', False), (''name'', False)]"

definition self_heap :: heap where
  "self_heap = [Obj PObject [(SKey ''self'', True, Ref 0)]]"

definition self_heap_cloned :: heap where
  "self_heap_cloned =
     [Obj PObject [(SKey ''self'', True, Ref 0)], Obj PObject [(SKey ''self'', True, Ref 1)]]"

definition shared_heap :: heap where
  "shared_heap =
     [Obj PObject [(SKey ''a'', True, Ref 1), (SKey ''b'', True, Ref 1)],
      Arr [Num 1, Ref 0, arrow_fn 3]]"

definition shared_heap_cloned :: heap where
  "shared_heap_cloned =
     [Obj PObject [(SKey ''a'', True, Ref 1), (SKey ''b'', True, Ref 1)],
      Arr [Num 1, Ref 0, arrow_fn 3],
      Obj PObject [(SKey ''a'', True, Ref 3), (SKey ''b'', True, Ref 3)],
      Arr [Num 1, Ref 2, arrow_fn 3]]"

definition alias_heap :: heap where
  "alias_heap =
     [Obj PObject [(SKey ''a'', True, Ref 1), (SKey ''__proto__'', True, Ref 1)],
      Obj PObject [(SKey ''__proto__'', True, Null)]]"

definition alias_heap_cloned :: heap where
  "alias_heap_cloned =
     [Obj PObject [(SKey ''a'', True, Ref 1), (SKey ''__proto__'', True, Ref 1)],
      Obj PObject [(SKey ''__proto__'', True, Null)],
      Obj (PRef 3) [(SKey ''a'', True, Ref 3)],
      Obj PNull []]"

section \<open>Rules for the two loops\<close>

lemma cloneElems_rule_aux:
  assumes step: "\<And>pre v post st. vs0 = pre @ v # post \<Longrightarrow> I pre st \<Longrightarrow>
      outcome_sat (\<lambda>(c, (h, sn)). I (pre @ [v]) (push h arr c, sn)) T D (f v st)"
  shows "vs0 = pre @ vs \<Longrightarrow> I pre st \<Longrightarrow> outcome_sat (I vs0) T D (cloneElems f arr vs st)"
proof (induction vs arbitrary: pre st)
  case Nil
  then show ?case by simp
next
  case (Cons v vs)
  have s: "outcome_sat (\<lambda>(c, (h, sn)). I (pre @ [v]) (push h arr c, sn)) T D (f v st)"
    using step Cons.prems by blast
  show ?case
  proof (cases "f v st")
    case (Return x)
    obtain c h sn where x: "x = (c, (h, sn))" by (cases x) auto
    have "I (pre @ [v]) (push h arr c, sn)" using s Return x by simp
    moreover have "vs0 = (pre @ [v]) @ vs" using Cons.prems(1) by simp
    ultimately have "outcome_sat (I vs0) T D (cloneElems f arr vs (push h arr c, sn))"
      using Cons.IH by blast
    then show ?thesis using Return x by simp
  next
    case (Throw e h)
    then show ?thesis using s by simp
  next
    case Timeout
    then show ?thesis using s by simp
  qed
qed

lemma cloneElems_rule:
  assumes "\<And>pre v post st. vs = pre @ v # post \<Longrightarrow> I pre st \<Longrightarrow>
      outcome_sat (\<lambda>(c, (h, sn)). I (pre @ [v]) (push h arr c, sn)) T D (f v st)"
    and "I [] st"
  shows "outcome_sat (I vs) T D (cloneElems f arr vs st)"
  using cloneElems_rule_aux [where ?vs0.0 = vs and pre = "[]" and vs = vs and I = I] assms
  by simp

lemma cloneProps_rule_aux:
  assumes step: "\<And>pre key post st. keys0 = pre @ key # post \<Longrightarrow> I pre st \<Longrightarrow>
      outcome_sat
        (\<lambda>(c, (h, sn)). outcome_sat (\<lambda>h'. I (pre @ [key]) (h', sn)) T D (put_prop h out key c))
        T D (f (get_prop (fst st) a key) st)"
  shows "keys0 = pre @ keys \<Longrightarrow> I pre st \<Longrightarrow>
         outcome_sat (I keys0) T D (cloneProps f out a keys st)"
proof (induction keys arbitrary: pre st)
  case Nil
  then show ?case by simp
next
  case (Cons key keys)
  have s: "outcome_sat
        (\<lambda>(c, (h, sn)). outcome_sat (\<lambda>h'. I (pre @ [key]) (h', sn)) T D (put_prop h out key c))
        T D (f (get_prop (fst st) a key) st)"
    using step Cons.prems by blast
  show ?case
  proof (cases "f (get_prop (fst st) a key) st")
    case (Return x)
    obtain c h sn where x: "x = (c, (h, sn))" by (cases x) auto
    have p: "outcome_sat (\<lambda>h'. I (pre @ [key]) (h', sn)) T D (put_prop h out key c)"
      using s Return x by simp
    show ?thesis
    proof (cases "put_prop h out key c")
      case (Return h')
      have "I (pre @ [key]) (h', sn)" using p Return by simp
      moreover have "keys0 = (pre @ [key]) @ keys" using Cons.prems(1) by simp
      ultimately have "outcome_sat (I keys0) T D (cloneProps f out a keys (h', sn))"
        using Cons.IH by blast
      then show ?thesis using Return x \<open>f (get_prop (fst st) a key) st = Return x\<close> by simp
    next
      case (Throw e h')
      then show ?thesis using p x \<open>f (get_prop (fst st) a key) st = Return x\<close> by simp
    next
      case Timeout
      then show ?thesis using p x \<open>f (get_prop (fst st) a key) st = Return x\<close> by simp
    qed
  next
    case (Throw e h)
    then show ?thesis using s by simp
  next
    case Timeout
    then show ?thesis using s by simp
  qed
qed

lemma cloneProps_rule:
  assumes "\<And>pre key post st. keys = pre @ key # post \<Longrightarrow> I pre st \<Longrightarrow>
      outcome_sat
        (\<lambda>(c, (h, sn)). outcome_sat (\<lambda>h'. I (pre @ [key]) (h', sn)) T D (put_prop h out key c))
        T D (f (get_prop (fst st) a key) st)"
    and "I [] st"
  shows "outcome_sat (I keys) T D (cloneProps f out a keys st)"
  using cloneProps_rule_aux [where ?keys0.0 = keys and pre = "[]" and keys = keys and I = I]
    assms
  by simp

lemma outcome_sat_mono:
  "outcome_sat R T D x \<Longrightarrow> (\<And>y. R y \<Longrightarrow> R' y) \<Longrightarrow> (\<And>h. T h \<Longrightarrow> T' h) \<Longrightarrow> (D \<Longrightarrow> D')
   \<Longrightarrow> outcome_sat R' T' D' x"
  by (cases x) auto

text \<open>How deepClone unfolds at an object that is not yet in the map.\<close>

lemma deepClone_unseen:
  assumes "a < length h" and "sn a = None"
  shows "deepClone (Suc n) (Ref a) (h, sn) =
     (case h ! a of
        Arr vs \<Rightarrow>
          (case cloneElems (deepClone n) (length h) vs (h @ [Arr []], sn(a \<mapsto> length h)) of
             Return st' \<Rightarrow> Return (Ref (length h), st')
           | Throw e h' \<Rightarrow> Throw e h'
           | Timeout \<Rightarrow> Timeout)
      | Obj p ps \<Rightarrow>
          (case cloneProps (deepClone n) (length h) a (object_keys ps)
                  (h @ [Obj PObject []], sn(a \<mapsto> length h)) of
             Return st' \<Rightarrow> Return (Ref (length h), st')
           | Throw e h' \<Rightarrow> Throw e h'
           | Timeout \<Rightarrow> Timeout))"
  using assms by (cases "h ! a") (simp_all add: Let_def)

lemma outcome_sat_deepClone_unseen:
  assumes "a < length h" and "sn a = None"
  shows "outcome_sat R T D (deepClone (Suc n) (Ref a) (h, sn)) =
     (case h ! a of
        Arr vs \<Rightarrow> outcome_sat (\<lambda>st'. R (Ref (length h), st')) T D
          (cloneElems (deepClone n) (length h) vs (h @ [Arr []], sn(a \<mapsto> length h)))
      | Obj p ps \<Rightarrow> outcome_sat (\<lambda>st'. R (Ref (length h), st')) T D
          (cloneProps (deepClone n) (length h) a (object_keys ps)
             (h @ [Obj PObject []], sn(a \<mapsto> length h))))"
  using deepClone_unseen [of a h sn n] assms
  by (auto split: obj.splits outcome.splits)

lemma deepClone_seen:
  "a < length h \<Longrightarrow> sn a = Some c \<Longrightarrow> deepClone (Suc n) (Ref a) (h, sn) = Return (Ref c, (h, sn))"
  by simp

lemma deepClone_not_object:
  "\<not> is_object h v \<Longrightarrow> deepClone (Suc n) v (h, sn) = Return (v, (h, sn))"
  by (cases v) auto

declare deepClone.simps(2) [simp del]

section \<open>Objects that exist before the call are never written\<close>

lemma extends_refl: "extends h h"
  by (simp add: extends_def)

lemma extends_length: "extends h h' \<Longrightarrow> length h \<le> length h'"
proof -
  assume "extends h h'"
  then have "length (take (length h) h') = length h" by (simp add: extends_def)
  then show ?thesis by (simp add: min_def split: if_splits)
qed

lemma extends_trans: "extends h1 h2 \<Longrightarrow> extends h2 h3 \<Longrightarrow> extends h1 h3"
proof -
  assume a: "extends h1 h2" and b: "extends h2 h3"
  have "length h1 \<le> length h2" using a by (rule extends_length)
  then have "take (length h1) h3 = take (length h1) (take (length h2) h3)"
    by (simp add: min_def)
  also have "\<dots> = h1" using a b by (simp add: extends_def)
  finally show ?thesis by (simp add: extends_def)
qed

lemma extends_append: "extends h (h @ xs)"
  by (simp add: extends_def)

lemma extends_update: "extends h0 h \<Longrightarrow> length h0 \<le> a \<Longrightarrow> extends h0 (h[a := x])"
  by (simp add: extends_def)

lemma extends_nth: "extends h h' \<Longrightarrow> a < length h \<Longrightarrow> h' ! a = h ! a"
  unfolding extends_def by (metis nth_take)

lemma extends_push: "extends h0 h \<Longrightarrow> length h0 \<le> arr \<Longrightarrow> extends h0 (push h arr c)"
  by (auto simp: push_def extends_update split: obj.splits)

lemma set_proto_frame:
  "extends h0 h \<Longrightarrow> length h0 \<le> out \<Longrightarrow>
   outcome_sat (extends h0) (extends h0) True (set_proto h out c)"
  by (auto simp: set_proto_def extends_update split: option.splits obj.splits bool.splits)

lemma put_prop_frame:
  "extends h0 h \<Longrightarrow> length h0 \<le> out \<Longrightarrow>
   outcome_sat (extends h0) (extends h0) True (put_prop h out key c)"
  by (auto simp: put_prop_def extends_update set_proto_frame
      split: obj.splits option.splits slot.splits)

text \<open>
  A call of deepClone leaves every object that exists when it starts as it is, and only
  adds entries to the map; this holds for a call that throws as well.
\<close>

lemma deepClone_grows:
  "outcome_sat (\<lambda>x. extends (fst st) (fst (snd x)) \<and> snd st \<subseteq>\<^sub>m snd (snd x))
     (extends (fst st)) True (deepClone n v st)"
proof (induction n arbitrary: v st)
  case 0
  then show ?case by simp
next
  case (Suc n)
  obtain h sn where st: "st = (h, sn)" by (cases st) auto
  show ?case
  proof (cases "is_object h v")
    case False
    then show ?thesis using st by (simp add: deepClone_not_object extends_refl)
  next
    case True
    then obtain a where v: "v = Ref a" and a: "a < length h" by (cases v) auto
    show ?thesis
    proof (cases "sn a")
      case (Some c)
      then show ?thesis using st v a by (simp add: deepClone_seen extends_refl)
    next
      case None
      let ?P = "\<lambda>s :: state. extends h (fst s) \<and> sn \<subseteq>\<^sub>m snd s"
      have le: "sn \<subseteq>\<^sub>m sn(a \<mapsto> length h)"
        using None by (auto simp: map_le_def)
      have stepf: "outcome_sat (\<lambda>x. extends h (fst (snd x)) \<and> sn \<subseteq>\<^sub>m snd (snd x)) (extends h) True
                     (deepClone n w s)"
        if "?P s" for w s
        by (rule outcome_sat_mono [OF Suc.IH [of s w]])
           (use that in \<open>auto intro: extends_trans map_le_trans\<close>)
      have A: "outcome_sat ?P (extends h) True
                 (cloneElems (deepClone n) (length h) vs (h @ [Arr []], sn(a \<mapsto> length h)))"
        for vs
      proof (rule cloneElems_rule [where I = "\<lambda>pre. ?P"])
        show "?P (h @ [Arr []], sn(a \<mapsto> length h))" using le by (simp add: extends_append)
      next
        fix pre w post s
        assume "?P s"
        then have "outcome_sat (\<lambda>x. extends h (fst (snd x)) \<and> sn \<subseteq>\<^sub>m snd (snd x)) (extends h)
                     True (deepClone n w s)"
          by (rule stepf)
        then show "outcome_sat (\<lambda>(c, (h', sn')). ?P (push h' (length h) c, sn'))
                     (extends h) True (deepClone n w s)"
          by (rule outcome_sat_mono) (auto simp: extends_push)
      qed
      have B: "outcome_sat ?P (extends h) True
                 (cloneProps (deepClone n) (length h) a ks
                    (h @ [Obj PObject []], sn(a \<mapsto> length h)))"
        for ks
      proof (rule cloneProps_rule [where I = "\<lambda>pre. ?P"])
        show "?P (h @ [Obj PObject []], sn(a \<mapsto> length h))"
          using le by (simp add: extends_append)
      next
        fix pre key post s
        assume "?P s"
        then have "outcome_sat (\<lambda>x. extends h (fst (snd x)) \<and> sn \<subseteq>\<^sub>m snd (snd x)) (extends h)
                     True (deepClone n (get_prop (fst s) a key) s)"
          by (rule stepf)
        then show "outcome_sat (\<lambda>(c, (h', sn')).
                       outcome_sat (\<lambda>h''. ?P (h'', sn')) (extends h) True
                         (put_prop h' (length h) key c))
                     (extends h) True (deepClone n (get_prop (fst s) a key) s)"
          by (rule outcome_sat_mono) (auto intro: put_prop_frame [THEN outcome_sat_mono])
      qed
      show ?thesis
        unfolding st v
        using A B a None
        by (simp add: outcome_sat_deepClone_unseen case_prod_beta split: obj.splits)
    qed
  qed
qed

lemma deepClone_Return_grows:
  assumes "deepClone n v (h, sn) = Return (r, (h', sn'))"
  shows "extends h h'" and "sn \<subseteq>\<^sub>m sn'"
  using deepClone_grows [of "(h, sn)" n v] assms by simp_all

lemma clone_frame:
  "outcome_sat (\<lambda>x. extends h (snd x)) (extends h) True (clone n v h)"
  using deepClone_grows [of "(h, Map.empty)" n v]
  by (cases "deepClone n v (h, Map.empty)") (auto simp: clone_def)

section \<open>The new container\<close>

lemma isArray_push: "arr < length h \<Longrightarrow> isArray (push h arr c ! arr) = isArray (h ! arr)"
  by (auto simp: push_def split: obj.splits)

lemma length_push: "length (push h arr c) = length h"
  by (auto simp: push_def split: obj.splits)

lemma set_proto_kind:
  "out < length h \<Longrightarrow>
   outcome_sat (\<lambda>h'. length h' = length h \<and> isArray (h' ! out) = isArray (h ! out))
     (\<lambda>h'. True) True (set_proto h out c)"
  by (auto simp: set_proto_def split: option.splits obj.splits bool.splits)

lemma put_prop_kind:
  "out < length h \<Longrightarrow>
   outcome_sat (\<lambda>h'. length h' = length h \<and> isArray (h' ! out) = isArray (h ! out))
     (\<lambda>h'. True) True (put_prop h out key c)"
  using set_proto_kind [of out h c]
  by (auto simp: put_prop_def split: obj.splits option.splits slot.splits)

lemma deepClone_new_container:
  assumes a: "a < length h" and None: "sn a = None"
    and ret: "deepClone (Suc n) (Ref a) (h, sn) = Return (r, (h', sn'))"
  shows "r = Ref (length h) \<and> length h < length h' \<and> sn' a = Some (length h) \<and>
         isArray (h' ! length h) = isArray (h ! a)"
proof -
  let ?P = "\<lambda>b (s :: state). extends h (fst s) \<and> length h < length (fst s) \<and>
              isArray (fst s ! length h) = b \<and> snd s a = Some (length h)"
  have stepf: "outcome_sat (\<lambda>x. ?P b (snd x)) (\<lambda>h. True) True (deepClone n w s)"
    if "?P b s" for w s b
  proof (rule outcome_sat_mono [OF deepClone_grows [of s n w]])
    fix y :: "val \<times> state"
    assume y: "extends (fst s) (fst (snd y)) \<and> snd s \<subseteq>\<^sub>m snd (snd y)"
    have "fst (snd y) ! length h = fst s ! length h"
      using y that by (simp add: extends_nth)
    moreover have "length h < length (fst (snd y))"
      using y that extends_length [of "fst s" "fst (snd y)"] by simp
    moreover have "snd (snd y) a = Some (length h)"
      using y that by (auto simp: map_le_def dom_def)
    moreover have "extends h (fst (snd y))"
      using y that extends_trans by blast
    ultimately show "?P b (snd y)" using that by simp
  qed simp_all
  have A: "outcome_sat (?P True) (\<lambda>h. True) True
             (cloneElems (deepClone n) (length h) vs (h @ [Arr []], sn(a \<mapsto> length h)))" for vs
  proof (rule cloneElems_rule [where I = "\<lambda>pre. ?P True"])
    show "?P True (h @ [Arr []], sn(a \<mapsto> length h))" by (simp add: extends_append)
  next
    fix pre w post s
    assume "?P True s"
    then have "outcome_sat (\<lambda>x. ?P True (snd x)) (\<lambda>h. True) True (deepClone n w s)"
      by (rule stepf)
    then show "outcome_sat (\<lambda>(c, (h', sn')). ?P True (push h' (length h) c, sn'))
                 (\<lambda>h. True) True (deepClone n w s)"
      by (rule outcome_sat_mono) (auto simp: extends_push isArray_push length_push)
  qed
  have B: "outcome_sat (?P False) (\<lambda>h. True) True
             (cloneProps (deepClone n) (length h) a ks
                (h @ [Obj PObject []], sn(a \<mapsto> length h)))"
    for ks
  proof (rule cloneProps_rule [where I = "\<lambda>pre. ?P False"])
    show "?P False (h @ [Obj PObject []], sn(a \<mapsto> length h))" by (simp add: extends_append)
  next
    fix pre key post s
    assume "?P False s"
    then have "outcome_sat (\<lambda>x. ?P False (snd x)) (\<lambda>h. True) True
                 (deepClone n (get_prop (fst s) a key) s)"
      by (rule stepf)
    then show "outcome_sat (\<lambda>(c, (h', sn')).
                   outcome_sat (\<lambda>h''. ?P False (h'', sn')) (\<lambda>h. True) True
                     (put_prop h' (length h) key c))
                 (\<lambda>h. True) True (deepClone n (get_prop (fst s) a key) s)"
    proof (rule outcome_sat_mono)
      fix y :: "val \<times> state"
      assume y: "?P False (snd y)"
      obtain c h1 sn1 where yy: "y = (c, (h1, sn1))" by (cases y) auto
      have "outcome_sat (\<lambda>h''. ?P False (h'', sn1)) (\<lambda>h. True) True
              (put_prop h1 (length h) key c)"
        using put_prop_kind [of "length h" h1 key c] put_prop_frame [of h h1 "length h" key c]
          y yy
        by (cases "put_prop h1 (length h) key c") auto
      then show "case y of (c, (h', sn')) \<Rightarrow>
                   outcome_sat (\<lambda>h''. ?P False (h'', sn')) (\<lambda>h. True) True
                     (put_prop h' (length h) key c)"
        using yy by simp
    qed simp_all
  qed
  show ?thesis
  proof (cases "h ! a")
    case (Arr vs)
    then show ?thesis
      using A [of vs] ret a None deepClone_unseen [of a h sn n]
      by (auto split: outcome.splits)
  next
    case (Obj p ps)
    then show ?thesis
      using B [of "object_keys ps"] ret a None deepClone_unseen [of a h sn n]
      by (auto split: outcome.splits)
  qed
qed

section \<open>Primitives, and the input left as it was\<close>

text \<open>
  Claim C5. A value that is not an object (a primitive of any kind, \<^verbatim>\<open>null\<close>
  included) is returned as it is, and the heap is not touched: deepClone(5) is 5,
  deepClone("x") is "x", deepClone(null) is null.
\<close>

theorem clone_primitive_unchanged:
  "\<not> is_object h v \<Longrightarrow> clone (Suc n) v h = Return (v, h)"
  by (simp add: clone_def deepClone_not_object)

theorem clone_primitive_unchanged_witness:
  "\<not> is_object [] (Num 5) \<and> clone (Suc 0) (Num 5) [] = Return (Num 5, []) \<and>
   \<not> is_object [] (Str ''x'') \<and> clone (Suc 0) (Str ''x'') [] = Return (Str ''x'', []) \<and>
   \<not> is_object [] Null \<and> clone (Suc 0) Null [] = Return (Null, [])"
  using clone_primitive_unchanged [of "[]" "Num 5" 0]
    clone_primitive_unchanged [of "[]" "Str ''x''" 0]
    clone_primitive_unchanged [of "[]" Null 0]
  by simp

text \<open>
  Claim C7. A call leaves every object that existed before it unchanged, whether it
  returns or throws: the heap afterwards is the heap before, followed by the objects the
  call allocated. The map \<open>seen\<close> is made by the call and does not come out of it.
\<close>

theorem clone_never_mutates_input:
  "clone n v h = Return (r, h') \<or> clone n v h = Throw e h' \<Longrightarrow> extends h h'"
  using clone_frame [of h n v] by auto

theorem clone_never_mutates_input_witness:
  "clone 2 (Ref 0) [Obj PObject [(SKey ''self'', True, Ref 0)]] =
     Return (Ref 1, [Obj PObject [(SKey ''self'', True, Ref 0)],
                     Obj PObject [(SKey ''self'', True, Ref 1)]]) \<and>
   extends [Obj PObject [(SKey ''self'', True, Ref 0)]]
     [Obj PObject [(SKey ''self'', True, Ref 0)], Obj PObject [(SKey ''self'', True, Ref 1)]]"
proof -
  have e: "clone 2 (Ref 0) [Obj PObject [(SKey ''self'', True, Ref 0)]] =
     Return (Ref 1, [Obj PObject [(SKey ''self'', True, Ref 0)],
                     Obj PObject [(SKey ''self'', True, Ref 1)]])"
    by code_simp
  show ?thesis
    using e clone_never_mutates_input [of 2 "Ref 0" "[Obj PObject [(SKey ''self'', True, Ref 0)]]"
      "Ref 1" "[Obj PObject [(SKey ''self'', True, Ref 0)],
                Obj PObject [(SKey ''self'', True, Ref 1)]]"]
    by blast
qed

section \<open>The key \<open>__proto__\<close>\<close>

text \<open>
  Claim C9 (the code departs from it). \<^verbatim>\<open>c = JSON.parse('{"__proto__": null}');
  c.__proto__ = c\<close> is an object whose own enumerable property \<^verbatim>\<open>__proto__\<close> holds \<open>c\<close>
  itself. deepClone registers the new object for \<open>c\<close>, gets it back as the clone of the
  field, and assigns it to \<^verbatim>\<open>out['__proto__']\<close>: the setter of
  \<^verbatim>\<open>Object.prototype.__proto__\<close> refuses to make \<open>out\<close> its own prototype and throws a
  TypeError.
\<close>

theorem clone_throws_on_proto_cycle:
  "clone 2 (Ref 0) [Obj PObject [(SKey ''__proto__'', True, Ref 0)]] =
     Throw TypeError [Obj PObject [(SKey ''__proto__'', True, Ref 0)], Obj PObject []]"
  by code_simp

text \<open>
  Claim C10 (the code departs from it). For \<^verbatim>\<open>JSON.parse('{"a": 1, "__proto__": null}')\<close>
  the result has the prototype \<^verbatim>\<open>null\<close>, not \<^verbatim>\<open>Object.prototype\<close>, and its only own
  property is \<open>a\<close>: the own enumerable string key \<^verbatim>\<open>__proto__\<close> of the input is
  missing.
\<close>

theorem clone_drops_own_proto_key:
  "clone 2 (Ref 0) [Obj PObject [(SKey ''a'', True, Num 1), (SKey ''__proto__'', True, Null)]] =
     Return (Ref 1, [Obj PObject [(SKey ''a'', True, Num 1), (SKey ''__proto__'', True, Null)],
                     Obj PNull [(SKey ''a'', True, Num 1)]])"
  by code_simp

text \<open>
  Claim C3 (the code departs from it). \<^verbatim>\<open>JSON.parse('{"__proto__": 5}')\<close> is acyclic and
  has one own enumerable key. Its clone has no own key at all (the setter ignores a
  number), so the two are not deep-equal, while the input is deep-equal to itself at the
  same depth.
\<close>

theorem clone_not_deep_equal:
  "clone 2 (Ref 0) [Obj PObject [(SKey ''__proto__'', True, Num 5)]] =
     Return (Ref 1, [Obj PObject [(SKey ''__proto__'', True, Num 5)], Obj PObject []]) \<and>
   \<not> deep_equal 2 [Obj PObject [(SKey ''__proto__'', True, Num 5)], Obj PObject []]
         (Ref 0) (Ref 1) \<and>
   deep_equal 2 [Obj PObject [(SKey ''__proto__'', True, Num 5)], Obj PObject []]
     (Ref 0) (Ref 0)"
  by code_simp

text \<open>
  Claim C8 (the code departs from it). For the same input the clone of the clone is
  again an object with no own key, and is not deep-equal to the input.
\<close>

theorem clone_clone_not_deep_equal:
  "clone 2 (Ref 0) [Obj PObject [(SKey ''__proto__'', True, Num 5)]] =
     Return (Ref 1, [Obj PObject [(SKey ''__proto__'', True, Num 5)], Obj PObject []]) \<and>
   clone 2 (Ref 1) [Obj PObject [(SKey ''__proto__'', True, Num 5)], Obj PObject []] =
     Return (Ref 2, [Obj PObject [(SKey ''__proto__'', True, Num 5)], Obj PObject [],
                     Obj PObject []]) \<and>
   \<not> deep_equal 2 [Obj PObject [(SKey ''__proto__'', True, Num 5)], Obj PObject [],
                    Obj PObject []] (Ref 0) (Ref 2)"
  by code_simp

text \<open>
  Claim C1 (the code departs from it). In \<open>alias_heap\<close> the fields \<open>a\<close> and
  \<^verbatim>\<open>__proto__\<close> of \<open>v\<close> hold the same object \<open>s\<close>. \<^verbatim>\<open>deepClone(v)\<close> makes one clone of
  \<open>s\<close> (address 3) and stores it in the field \<open>a\<close> of the result (address 2). The
  assignment \<^verbatim>\<open>out['__proto__'] = ...\<close> then reaches the setter of
  \<^verbatim>\<open>Object.prototype.__proto__\<close>, which makes the clone of \<open>s\<close> the prototype of the
  result and creates no field. The clone of \<open>s\<close> itself has the prototype \<^verbatim>\<open>null\<close> and
  no property, so the result has no property \<^verbatim>\<open>__proto__\<close> at all, own or inherited:
  \<^verbatim>\<open>r.a\<close> is the clone of \<open>s\<close> and \<^verbatim>\<open>r.__proto__\<close> is \<^verbatim>\<open>undefined\<close>. The two fields of
  \<open>v\<close> that hold \<open>s\<close> do not correspond to two fields of the result that hold the clone
  of \<open>s\<close>, and the result is not the clone that the specification describes.
\<close>

theorem deepClone_loses_aliased_field:
  "deepClone 3 (Ref 0) (alias_heap, Map.empty) =
     Return (Ref 2, (alias_heap_cloned, [0 \<mapsto> 2, 1 \<mapsto> 3])) \<and>
   get_prop alias_heap 0 ''a'' = Ref 1 \<and> get_prop alias_heap 0 ''__proto__'' = Ref 1 \<and>
   get_prop alias_heap_cloned 2 ''a'' = Ref 3 \<and>
   get_prop alias_heap_cloned 2 ''__proto__'' = Undefined \<and>
   alias_heap_cloned ! 2 \<noteq> spec_clone [0 \<mapsto> 2, 1 \<mapsto> 3] (alias_heap ! 0)"
proof -
  have "deepClone 3 (Ref 0) (alias_heap, Map.empty) =
     Return (Ref 2, (alias_heap_cloned, [0 \<mapsto> 2, 1 \<mapsto> 3]))"
    by (simp add: eval_nat_numeral deepClone.simps alias_heap_def alias_heap_cloned_def
        get_prop_def prop_val_def put_prop_def set_proto_def object_prototype_slot_def)
  moreover have "get_prop alias_heap 0 ''a'' = Ref 1 \<and>
      get_prop alias_heap 0 ''__proto__'' = Ref 1 \<and>
      get_prop alias_heap_cloned 2 ''a'' = Ref 3 \<and>
      get_prop alias_heap_cloned 2 ''__proto__'' = Undefined \<and>
      alias_heap_cloned ! 2 \<noteq> spec_clone [0 \<mapsto> 2, 1 \<mapsto> 3] (alias_heap ! 0)"
    by code_simp
  ultimately show ?thesis by simp
qed

text \<open>
  Claim C6 (the code departs from it). For
  \<^verbatim>\<open>JSON.parse('{"__proto__": "x", "b": true}')\<close> deepClone allocates a new object at the
  next free address, registers it under the input, and clones the value of each of the
  two fields. But \<^verbatim>\<open>out['__proto__'] = "x"\<close> calls the setter of
  \<^verbatim>\<open>Object.prototype.__proto__\<close>, which ignores a string: when the call returns, the
  new container holds the field \<open>b\<close> only. The field \<^verbatim>\<open>__proto__\<close> of the input, the
  first key that \<^verbatim>\<open>Object.keys\<close> lists, was not put into it.
\<close>

theorem deepClone_leaves_field_unpopulated:
  "deepClone 2 (Ref 0)
     ([Obj PObject [(SKey ''__proto__'', True, Str ''x''), (SKey ''b'', True, Bool True)]],
      Map.empty) =
     Return (Ref 1,
       ([Obj PObject [(SKey ''__proto__'', True, Str ''x''), (SKey ''b'', True, Bool True)],
         Obj PObject [(SKey ''b'', True, Bool True)]], [0 \<mapsto> 1])) \<and>
   object_keys [(SKey ''__proto__'', True, Str ''x''), (SKey ''b'', True, Bool True)] =
     [''__proto__'', ''b''] \<and>
   object_keys [(SKey ''b'', True, Bool True)] = [''b''] \<and>
   Obj PObject [(SKey ''b'', True, Bool True)] \<noteq>
     spec_clone [0 \<mapsto> 1]
       (Obj PObject [(SKey ''__proto__'', True, Str ''x''), (SKey ''b'', True, Bool True)])"
proof -
  have "deepClone 2 (Ref 0)
     ([Obj PObject [(SKey ''__proto__'', True, Str ''x''), (SKey ''b'', True, Bool True)]],
      Map.empty) =
     Return (Ref 1,
       ([Obj PObject [(SKey ''__proto__'', True, Str ''x''), (SKey ''b'', True, Bool True)],
         Obj PObject [(SKey ''b'', True, Bool True)]], [0 \<mapsto> 1]))"
    by (simp add: eval_nat_numeral deepClone.simps get_prop_def prop_val_def put_prop_def
        set_proto_def object_prototype_slot_def)
  moreover have "Obj PObject [(SKey ''b'', True, Bool True)] \<noteq>
     spec_clone [0 \<mapsto> 1]
       (Obj PObject [(SKey ''__proto__'', True, Str ''x''), (SKey ''b'', True, Bool True)])"
    by code_simp
  ultimately show ?thesis by simp
qed

text \<open>
  Once the key \<^verbatim>\<open>__proto__\<close> has made a function the prototype of the new object, the
  later assignments find what functions hold. With \<^verbatim>\<open>const f = () => {}\<close> and an object
  \<open>s\<close>, the clone of \<^verbatim>\<open>{["__proto__"]: f, name: s, a: s}\<close> has the field \<open>a\<close> and not the
  field \<^verbatim>\<open>name\<close>, which \<open>f\<close> holds read-only; and cloning
  \<^verbatim>\<open>{["__proto__"]: f, caller: 1}\<close> throws a TypeError, from the setter of
  \<^verbatim>\<open>Function.prototype.caller\<close>.
\<close>

lemma clone_through_function_drops_name:
  "clone 3 (Ref 0)
     [Obj PObject [(SKey ''__proto__'', True, arrow_fn 7), (SKey ''name'', True, Ref 1),
                   (SKey ''a'', True, Ref 1)],
      Obj PObject []] =
   Return (Ref 2,
     [Obj PObject [(SKey ''__proto__'', True, arrow_fn 7), (SKey ''name'', True, Ref 1),
                   (SKey ''a'', True, Ref 1)],
      Obj PObject [],
      Obj (PFn 7 [(''length'', False), (''name'', False)])
        [(SKey ''a'', True, Ref 3)],
      Obj PObject []])"
  by code_simp

lemma clone_through_function_throws:
  "clone 3 (Ref 0)
     [Obj PObject [(SKey ''__proto__'', True, arrow_fn 7), (SKey ''caller'', True, Num 1)]] =
   Throw TypeError
     [Obj PObject [(SKey ''__proto__'', True, arrow_fn 7), (SKey ''caller'', True, Num 1)],
      Obj (PFn 7 [(''length'', False), (''name'', False)]) []]"
  by code_simp

section \<open>The prototype chain of a new object\<close>

lemma proto_walk_sound:
  "proto_walk h k (PRef x) out = Some False \<Longrightarrow> (x, out) \<notin> (proto_edges n0 h)\<^sup>*"
proof (induction k arbitrary: x)
  case 0
  then show ?case by simp
next
  case (Suc k)
  have ne: "x \<noteq> out" using Suc.prems by (auto split: if_splits)
  show ?case
  proof
    assume "(x, out) \<in> (proto_edges n0 h)\<^sup>*"
    then obtain y where xy: "(x, y) \<in> proto_edges n0 h" and y: "(y, out) \<in> (proto_edges n0 h)\<^sup>*"
      using ne by (auto elim: converse_rtranclE)
    from xy obtain ps where "x < length h" "h ! x = Obj (PRef y) ps"
      by (auto simp: proto_edges_def)
    then have "proto_walk h k (PRef y) out = Some False"
      using Suc.prems ne by simp
    then show False using Suc.IH y by blast
  qed
qed

lemma finite_proto_edges: "finite (proto_edges n0 h)"
proof -
  have "proto_edges n0 h \<subseteq> (\<lambda>ob. (ob, (case h ! ob of Obj (PRef x) ps \<Rightarrow> x | _ \<Rightarrow> 0))) ` {..<length h}"
    by (auto simp: proto_edges_def image_iff)
  then show ?thesis by (rule finite_subset) simp
qed

lemma finite_reach: "finite ((proto_edges n0 h)\<^sup>* `` {a})"
proof -
  have "(proto_edges n0 h)\<^sup>* `` {a} \<subseteq> insert a (Range (proto_edges n0 h))"
    by (auto elim: rtranclE)
  moreover have "finite (Range (proto_edges n0 h))"
    using finite_proto_edges by (simp add: finite_Range)
  ultimately show ?thesis by (meson finite_insert finite_subset)
qed

lemma proto_walk_steps:
  assumes ac: "acyclic (proto_edges n0 h)"
    and cl: "\<forall>ob. n0 \<le> ob \<and> ob < length h \<longrightarrow> refs_of (h ! ob) \<subseteq> {n0..<length h}"
  shows "proto_walk h k (PRef a) out = None \<Longrightarrow> n0 \<le> a \<Longrightarrow>
         k \<le> card ((proto_edges n0 h)\<^sup>* `` {a})"
proof (induction k arbitrary: a)
  case 0
  then show ?case by simp
next
  case (Suc k)
  let ?E = "proto_edges n0 h"
  from Suc.prems(1) obtain q ps where a: "a < length h" "h ! a = Obj q ps"
    and w: "proto_walk h k q out = None"
    by (auto split: if_splits obj.splits)
  have ain: "a \<in> ?E\<^sup>* `` {a}" by simp
  show ?case
  proof (cases q)
    case (PRef b)
    have ab: "(a, b) \<in> ?E" using a PRef Suc.prems(2) by (auto simp: proto_edges_def)
    have "b \<in> refs_of (h ! a)" using a PRef by simp
    then have b: "n0 \<le> b" using cl a Suc.prems(2) by fastforce
    have IH: "k \<le> card (?E\<^sup>* `` {b})" using Suc.IH w PRef b by simp
    have sub: "?E\<^sup>* `` {b} \<subseteq> ?E\<^sup>* `` {a}"
      using ab by (auto intro: converse_rtrancl_into_rtrancl)
    have "a \<notin> ?E\<^sup>* `` {b}"
    proof
      assume "a \<in> ?E\<^sup>* `` {b}"
      then have "(b, a) \<in> ?E\<^sup>*" by simp
      then have "(a, a) \<in> ?E\<^sup>+" using ab by (rule rtrancl_into_trancl2[rotated])
      then show False using ac by (simp add: acyclic_def)
    qed
    then have "?E\<^sup>* `` {b} \<subset> ?E\<^sup>* `` {a}" using sub ain by blast
    then have "card (?E\<^sup>* `` {b}) < card (?E\<^sup>* `` {a})"
      using finite_reach by (simp add: psubset_card_mono)
    then show ?thesis using IH by simp
  next
    case PNull
    then have "k = 0" using w by (cases k) auto
    moreover have "0 < card (?E\<^sup>* `` {a})"
      using ain finite_reach [of n0 h a] by (auto simp: card_gt_0_iff)
    ultimately show ?thesis by simp
  next
    case PObject
    then have "k = 0" using w by (cases k) auto
    moreover have "0 < card (?E\<^sup>* `` {a})"
      using ain finite_reach [of n0 h a] by (auto simp: card_gt_0_iff)
    ultimately show ?thesis by simp
  next
    case (PFn f fs)
    then have "k = 0" using w by (cases k) auto
    moreover have "0 < card (?E\<^sup>* `` {a})"
      using ain finite_reach [of n0 h a] by (auto simp: card_gt_0_iff)
    ultimately show ?thesis by simp
  qed
qed

lemma proto_walk_terminates:
  assumes ac: "acyclic (proto_edges n0 h)"
    and cl: "\<forall>ob. n0 \<le> ob \<and> ob < length h \<longrightarrow> refs_of (h ! ob) \<subseteq> {n0..<length h}"
    and q: "proto_addrs q \<subseteq> {n0..<length h}"
  shows "proto_walk h (Suc (length h)) q out \<noteq> None"
proof (cases q)
  case (PRef a)
  let ?E = "proto_edges n0 h"
  have a: "n0 \<le> a" "a < length h" using q PRef by auto
  have "?E\<^sup>* `` {a} \<subseteq> {..<length h}"
  proof
    fix x assume "x \<in> ?E\<^sup>* `` {a}"
    then have "(a, x) \<in> ?E\<^sup>*" by simp
    then show "x \<in> {..<length h}"
    proof (cases rule: rtranclE)
      case base
      then show ?thesis using a by simp
    next
      case (step y)
      then obtain ps where "n0 \<le> y" "y < length h" "h ! y = Obj (PRef x) ps"
        by (auto simp: proto_edges_def)
      then have "x \<in> refs_of (h ! y)" by simp
      then show ?thesis using cl \<open>n0 \<le> y\<close> \<open>y < length h\<close> by fastforce
    qed
  qed
  then have "card (?E\<^sup>* `` {a}) \<le> card {..<length h}"
    by (intro card_mono) auto
  then have c: "card (?E\<^sup>* `` {a}) \<le> length h" by simp
  show ?thesis
  proof
    assume "proto_walk h (Suc (length h)) q out = None"
    then have "Suc (length h) \<le> card (?E\<^sup>* `` {a})"
      using proto_walk_steps [OF ac cl, of "Suc (length h)" a out] PRef a by simp
    then show False using c by simp
  qed
qed simp_all


lemma proto_addrs_PRef: "x \<in> proto_addrs p \<Longrightarrow> p = PRef x"
  by (cases p) auto

lemma proto_edges_alloc:
  assumes "refs_of new = {}"
  shows "proto_edges n0 (h @ [new]) = proto_edges n0 h"
proof -
  have "\<And>x ps. new \<noteq> Obj (PRef x) ps" using assms by auto
  then show ?thesis
    by (auto simp: proto_edges_def nth_append less_Suc_eq)
qed

lemma proto_edges_update:
  "proto_edges n0 (h[ob := new]) \<subseteq>
     proto_edges n0 h \<union> {(ob, x) | x. x \<in> (case new of Obj p ps \<Rightarrow> proto_addrs p | Arr vs \<Rightarrow> {})}"
proof
  fix e assume e: "e \<in> proto_edges n0 (h[ob := new])"
  obtain o' x where ox: "e = (o', x)" by (cases e) auto
  from e ox obtain ps where o': "n0 \<le> o'" "o' < length h" "h[ob := new] ! o' = Obj (PRef x) ps"
    by (auto simp: proto_edges_def)
  show "e \<in> proto_edges n0 h \<union> {(ob, x) | x. x \<in> (case new of Obj p ps \<Rightarrow> proto_addrs p | Arr vs \<Rightarrow> {})}"
  proof (cases "o' = ob")
    case True
    then have "new = Obj (PRef x) ps" using o' by simp
    then show ?thesis using True ox by simp
  next
    case False
    then have "h ! o' = Obj (PRef x) ps" using o' by simp
    then show ?thesis using o' ox by (auto simp: proto_edges_def)
  qed
qed

lemma acyclic_update_same_proto:
  assumes "acyclic (proto_edges n0 h)" and "ob < length h"
    and "(case new of Obj p ps \<Rightarrow> proto_addrs p | Arr vs \<Rightarrow> {}) \<subseteq>
         (case h ! ob of Obj p ps \<Rightarrow> proto_addrs p | Arr vs \<Rightarrow> {})"
    and "n0 \<le> ob"
  shows "acyclic (proto_edges n0 (h[ob := new]))"
proof -
  have "{(ob, x) | x. x \<in> (case new of Obj p ps \<Rightarrow> proto_addrs p | Arr vs \<Rightarrow> {})} \<subseteq> proto_edges n0 h"
  proof
    fix e assume "e \<in> {(ob, x) | x. x \<in> (case new of Obj p ps \<Rightarrow> proto_addrs p | Arr vs \<Rightarrow> {})}"
    then obtain x where e: "e = (ob, x)" and "x \<in> (case new of Obj p ps \<Rightarrow> proto_addrs p | Arr vs \<Rightarrow> {})"
      by auto
    then have "x \<in> (case h ! ob of Obj p ps \<Rightarrow> proto_addrs p | Arr vs \<Rightarrow> {})" using assms(3) by auto
    then obtain ps where "h ! ob = Obj (PRef x) ps"
      by (cases "h ! ob") (auto dest: proto_addrs_PRef)
    then show "e \<in> proto_edges n0 h" using e assms(2,4) by (auto simp: proto_edges_def)
  qed
  then have "proto_edges n0 (h[ob := new]) \<subseteq> proto_edges n0 h"
    using proto_edges_update [of n0 h ob new] by blast
  then show ?thesis using assms(1) acyclic_subset by blast
qed

lemma shape_alloc:
  assumes sh: "shape h0 (h, sn)" and a: "a < length h0" and new: "refs_of new = {}"
  shows "shape h0 (h @ [new], sn(a \<mapsto> length h))"
proof -
  have len: "length h0 \<le> length h" using sh by (auto simp: shape_def dest: extends_length)
  have 1: "extends h0 (h @ [new])"
    using sh extends_append extends_trans by (fastforce simp: shape_def)
  have 2: "\<forall>b c. (sn(a \<mapsto> length h)) b = Some c \<longrightarrow> b < length h0 \<and> c \<in> fresh h0 (h @ [new])"
  proof (intro allI impI)
    fix b c assume bc: "(sn(a \<mapsto> length h)) b = Some c"
    show "b < length h0 \<and> c \<in> fresh h0 (h @ [new])"
    proof (cases "b = a")
      case True
      then show ?thesis using bc a len by (simp add: fresh_def)
    next
      case False
      then have "sn b = Some c" using bc by simp
      then have "b < length h0 \<and> c \<in> fresh h0 h" using sh by (simp add: shape_def)
      then show ?thesis by (simp add: fresh_def)
    qed
  qed
  have 3: "\<forall>ob \<in> fresh h0 (h @ [new]). refs_of ((h @ [new]) ! ob) \<subseteq> fresh h0 (h @ [new])"
  proof
    fix ob assume ob: "ob \<in> fresh h0 (h @ [new])"
    show "refs_of ((h @ [new]) ! ob) \<subseteq> fresh h0 (h @ [new])"
    proof (cases "ob < length h")
      case True
      then have "ob \<in> fresh h0 h" using ob by (simp add: fresh_def)
      then have "refs_of (h ! ob) \<subseteq> fresh h0 h" using sh by (simp add: shape_def)
      then show ?thesis using True by (auto simp: nth_append fresh_def)
    next
      case False
      then have "ob = length h" using ob by (simp add: fresh_def)
      then show ?thesis using new by simp
    qed
  qed
  have 4: "acyclic (proto_edges (length h0) (h @ [new]))"
    using sh new by (simp add: shape_def proto_edges_alloc)
  show ?thesis using 1 2 3 4 by (simp add: shape_def)
qed

lemma shape_update:
  assumes sh: "shape h0 (h, sn)" and ob: "ob \<in> fresh h0 h"
    and refs: "refs_of new \<subseteq> fresh h0 h"
    and ac: "acyclic (proto_edges (length h0) (h[ob := new]))"
  shows "shape h0 (h[ob := new], sn)"
proof -
  have 1: "extends h0 (h[ob := new])"
    using sh ob by (auto simp: shape_def fresh_def intro: extends_update)
  have 3: "\<forall>x \<in> fresh h0 (h[ob := new]). refs_of (h[ob := new] ! x) \<subseteq> fresh h0 (h[ob := new])"
  proof
    fix x assume x: "x \<in> fresh h0 (h[ob := new])"
    then have xf: "x \<in> fresh h0 h" by (simp add: fresh_def)
    show "refs_of (h[ob := new] ! x) \<subseteq> fresh h0 (h[ob := new])"
    proof (cases "x = ob")
      case True
      then show ?thesis using refs ob by (simp add: fresh_def)
    next
      case False
      then show ?thesis using sh xf by (simp add: shape_def fresh_def)
    qed
  qed
  show ?thesis using 1 3 ac sh by (simp add: shape_def fresh_def)
qed

lemma shape_push:
  assumes sh: "shape h0 (h, sn)" and arr: "length h0 \<le> arr" and c: "val_addrs c \<subseteq> fresh h0 h"
  shows "shape h0 (push h arr c, sn)"
proof (cases "arr < length h")
  case False
  then show ?thesis using sh by (simp add: push_def)
next
  case True
  then have f: "arr \<in> fresh h0 h" using arr by (simp add: fresh_def)
  show ?thesis
  proof (cases "h ! arr")
    case (Obj p ps)
    then show ?thesis using sh True by (simp add: push_def)
  next
    case (Arr vs)
    have "refs_of (h ! arr) \<subseteq> fresh h0 h" using sh f by (simp add: shape_def)
    then have r: "refs_of (Arr (vs @ [c])) \<subseteq> fresh h0 h" using c Arr by auto
    have "acyclic (proto_edges (length h0) (h[arr := Arr (vs @ [c])]))"
      using sh True arr by (intro acyclic_update_same_proto) (auto simp: shape_def)
    then have "shape h0 (h[arr := Arr (vs @ [c])], sn)"
      using shape_update [OF sh f r] by simp
    then show ?thesis using Arr True by (simp add: push_def)
  qed
qed

lemma shape_set_proto:
  assumes sh: "shape h0 (h, sn)" and out: "out \<in> fresh h0 h" and c: "val_addrs c \<subseteq> fresh h0 h"
  shows "outcome_sat (\<lambda>h'. shape h0 (h', sn) \<and> length h' = length h) (\<lambda>h'. True) False (set_proto h out c)"
proof (cases "proto_of_val c")
  case None
  then show ?thesis using sh by (simp add: set_proto_def)
next
  case (Some q)
  have qa: "proto_addrs q \<subseteq> fresh h0 h"
    using Some c by (cases c) auto
  show ?thesis
  proof (cases "h ! out")
    case (Arr vs)
    then show ?thesis using sh Some by (simp add: set_proto_def)
  next
    case (Obj p ps)
    show ?thesis
    proof (cases "q = p")
      case True
      then show ?thesis using sh Some Obj by (simp add: set_proto_def)
    next
      case False
      have ac: "acyclic (proto_edges (length h0) h)" using sh by (simp add: shape_def)
      have cl: "\<forall>ob. length h0 \<le> ob \<and> ob < length h \<longrightarrow> refs_of (h ! ob) \<subseteq> {length h0..<length h}"
        using sh by (simp add: shape_def fresh_def)
      have nt: "proto_walk h (Suc (length h)) q out \<noteq> None"
        using proto_walk_terminates [OF ac cl] qa by (simp add: fresh_def)
      show ?thesis
      proof (cases "proto_walk h (Suc (length h)) q out")
        case None
        then show ?thesis using nt by simp
      next
        case (Some b)
        show ?thesis
        proof (cases b)
          case True
          then show ?thesis
            using Some \<open>proto_of_val c = Some q\<close> Obj False by (simp add: set_proto_def)
        next
          case F: False
          have r: "refs_of (Obj q ps) \<subseteq> fresh h0 h"
          proof -
            have "refs_of (h ! out) \<subseteq> fresh h0 h" using sh out by (simp add: shape_def)
            then show ?thesis using Obj qa by auto
          qed
          have "acyclic (proto_edges (length h0) (h[out := Obj q ps]))"
          proof (cases q)
            case (PRef x)
            have "(x, out) \<notin> (proto_edges (length h0) h)\<^sup>*"
              using proto_walk_sound [of h "Suc (length h)" x out "length h0"] Some F PRef by simp
            then have "acyclic (insert (out, x) (proto_edges (length h0) h))"
              using ac by simp
            moreover have "proto_edges (length h0) (h[out := Obj q ps]) \<subseteq>
                insert (out, x) (proto_edges (length h0) h)"
              using proto_edges_update [of "length h0" h out "Obj q ps"] PRef by auto
            ultimately show ?thesis using acyclic_subset by blast
          next
            case PNull
            then have "proto_edges (length h0) (h[out := Obj q ps]) \<subseteq> proto_edges (length h0) h"
              using proto_edges_update [of "length h0" h out "Obj q ps"] by auto
            then show ?thesis using ac acyclic_subset by blast
          next
            case PObject
            then have "proto_edges (length h0) (h[out := Obj q ps]) \<subseteq> proto_edges (length h0) h"
              using proto_edges_update [of "length h0" h out "Obj q ps"] by auto
            then show ?thesis using ac acyclic_subset by blast
          next
            case (PFn f fs)
            then have "proto_edges (length h0) (h[out := Obj q ps]) \<subseteq> proto_edges (length h0) h"
              using proto_edges_update [of "length h0" h out "Obj q ps"] by auto
            then show ?thesis using ac acyclic_subset by blast
          qed
          then have "shape h0 (h[out := Obj q ps], sn)"
            using shape_update [OF sh out r] by simp
          then show ?thesis
            using Some F \<open>proto_of_val c = Some q\<close> Obj False by (simp add: set_proto_def)
        qed
      qed
    qed
  qed
qed

lemma find_slot_walk:
  "find_slot h k p key = None \<Longrightarrow> length h \<le> x \<Longrightarrow> proto_walk h k p x = None"
proof (induction k arbitrary: p)
  case 0
  then show ?case by simp
next
  case (Suc k)
  show ?case
  proof (cases p)
    case (PRef a)
    then obtain q ps where a: "a < length h" "h ! a = Obj q ps"
      and w: "find_slot h k q key = None"
      using Suc.prems(1) by (auto split: if_splits obj.splits option.splits)
    have "proto_walk h k q x = None" using Suc.IH w Suc.prems(2) by blast
    then show ?thesis using PRef a Suc.prems(2) by simp
  qed (use Suc.prems in simp_all)
qed

lemma find_slot_terminates:
  assumes sh: "shape h0 (h, sn)" and out: "out \<in> fresh h0 h" and ob: "h ! out = Obj p ps"
  shows "find_slot h (Suc (length h)) p key \<noteq> None"
proof
  assume n: "find_slot h (Suc (length h)) p key = None"
  have ac: "acyclic (proto_edges (length h0) h)" using sh by (simp add: shape_def)
  have cl: "\<forall>ob. length h0 \<le> ob \<and> ob < length h \<longrightarrow> refs_of (h ! ob) \<subseteq> {length h0..<length h}"
    using sh by (simp add: shape_def fresh_def)
  have "refs_of (h ! out) \<subseteq> fresh h0 h" using sh out by (simp add: shape_def)
  then have pa: "proto_addrs p \<subseteq> {length h0..<length h}" using ob by (auto simp: fresh_def)
  have "proto_walk h (Suc (length h)) p (length h) \<noteq> None"
    using proto_walk_terminates [OF ac cl pa] .
  then show False using find_slot_walk [OF n, of "length h"] by simp
qed

lemma shape_put_prop:
  assumes sh: "shape h0 (h, sn)" and out: "length h0 \<le> out" and c: "val_addrs c \<subseteq> fresh h0 h"
  shows "outcome_sat (\<lambda>h'. shape h0 (h', sn) \<and> length h' = length h) (\<lambda>h'. True) False
           (put_prop h out key c)"
proof (cases "out < length h")
  case False
  then show ?thesis using sh by (simp add: put_prop_def)
next
  case True
  then have f: "out \<in> fresh h0 h" using out by (simp add: fresh_def)
  show ?thesis
  proof (cases "h ! out")
    case (Arr vs)
    then show ?thesis using sh True by (simp add: put_prop_def)
  next
    case (Obj p ps)
    have "find_slot h (Suc (length h)) p key \<noteq> None"
      using find_slot_terminates [OF sh f Obj] .
    then obtain sl where sl: "find_slot h (Suc (length h)) p key = Some sl" by auto
    show ?thesis
    proof (cases sl)
      case Assignable
      have "refs_of (h ! out) \<subseteq> fresh h0 h" using sh f by (simp add: shape_def)
      then have r: "refs_of (Obj p (ps @ [(SKey key, True, c)])) \<subseteq> fresh h0 h" using c Obj by auto
      have "acyclic (proto_edges (length h0) (h[out := Obj p (ps @ [(SKey key, True, c)])]))"
        using sh True out Obj by (intro acyclic_update_same_proto) (auto simp: shape_def)
      then have "shape h0 (h[out := Obj p (ps @ [(SKey key, True, c)])], sn)"
        using shape_update [OF sh f r] by simp
      then show ?thesis using Obj True sl Assignable by (simp add: put_prop_def)
    next
      case ReadOnly
      then show ?thesis using Obj True sl sh by (simp add: put_prop_def)
    next
      case ProtoSetter
      then show ?thesis
        using shape_set_proto [OF sh f c] Obj True sl by (simp add: put_prop_def)
    next
      case Thrower
      then show ?thesis using Obj True sl by (simp add: put_prop_def)
    qed
  qed
qed


lemma unseen_mono: "sn \<subseteq>\<^sub>m sn' \<Longrightarrow> unseen h0 sn' \<le> unseen h0 sn"
proof -
  assume le: "sn \<subseteq>\<^sub>m sn'"
  have "{a. a < length h0 \<and> sn' a = None} \<subseteq> {a. a < length h0 \<and> sn a = None}"
  proof
    fix a assume "a \<in> {a. a < length h0 \<and> sn' a = None}"
    then have a: "a < length h0" "sn' a = None" by auto
    have "sn a = None"
    proof (cases "sn a")
      case (Some c)
      then have "sn' a = Some c" using le by (auto simp: map_le_def dom_def)
      then show ?thesis using a by simp
    qed simp
    then show "a \<in> {a. a < length h0 \<and> sn a = None}" using a by simp
  qed
  then show ?thesis unfolding unseen_def by (intro card_mono) auto
qed

lemma unseen_register:
  assumes "a < length h0" and "sn a = None"
  shows "unseen h0 (sn(a \<mapsto> c)) < unseen h0 sn"
proof -
  have "{b. b < length h0 \<and> (sn(a \<mapsto> c)) b = None} \<subset> {b. b < length h0 \<and> sn b = None}"
    using assms by (auto split: if_splits)
  then show ?thesis unfolding unseen_def by (intro psubset_card_mono) auto
qed

lemma wf_heap_elems:
  "wf_heap h0 \<Longrightarrow> a < length h0 \<Longrightarrow> h0 ! a = Arr vs \<Longrightarrow> w \<in> set vs \<Longrightarrow> wf_val h0 w"
proof -
  assume wf: "wf_heap h0" and a: "a < length h0" and arr: "h0 ! a = Arr vs" and w: "w \<in> set vs"
  have "h0 ! a \<in> set h0" using a by simp
  then have "\<forall>x \<in> refs_of (Arr vs). x < length h0" using wf arr by (auto simp: wf_heap_def)
  then show ?thesis using w by (auto simp: wf_val_def)
qed

lemma own_prop_in_set: "own_prop ps key = Some w \<Longrightarrow> w \<in> (\<lambda>x. snd (snd x)) ` set ps"
  by (induction ps) (auto split: if_splits)

lemma wf_heap_get_prop:
  assumes wf: "wf_heap h0" and ex: "extends h0 h" and a: "a < length h0"
  shows "wf_val h0 (get_prop h a key)"
proof (cases "h0 ! a")
  case (Arr vs)
  then show ?thesis using ex a extends_nth [OF ex a] by (simp add: get_prop_def wf_val_def)
next
  case (Obj p ps)
  have ha: "h ! a = Obj p ps" using extends_nth [OF ex a] Obj by simp
  have al: "a < length h" using a extends_length [OF ex] by simp
  show ?thesis
  proof (cases "own_prop ps key")
    case None
    then show ?thesis using ha al by (simp add: get_prop_def prop_val_def wf_val_def)
  next
    case (Some w)
    then have kew: "w \<in> (\<lambda>x. snd (snd x)) ` set ps" by (rule own_prop_in_set)
    have "h0 ! a \<in> set h0" using a by simp
    then have "\<forall>x \<in> refs_of (Obj p ps). x < length h0" using wf Obj by (auto simp: wf_heap_def)
    then have "\<forall>x \<in> val_addrs w. x < length h0" using kew by auto
    then show ?thesis using ha al Some by (simp add: get_prop_def prop_val_def wf_val_def)
  qed
qed

lemma deepClone_shape:
  assumes wf: "wf_heap h0"
  shows "shape h0 st \<Longrightarrow> wf_val h0 v \<Longrightarrow>
         outcome_sat
           (\<lambda>x. shape h0 (snd x) \<and> snd st \<subseteq>\<^sub>m snd (snd x) \<and>
                val_addrs (fst x) \<subseteq> fresh h0 (fst (snd x)))
           (\<lambda>h'. True) (\<not> unseen h0 (snd st) < n) (deepClone n v st)"
proof (induction n arbitrary: v st)
  case 0
  then show ?case by simp
next
  case (Suc n)
  obtain h sn where st: "st = (h, sn)" by (cases st) auto
  have sh: "shape h0 (h, sn)" using Suc.prems(1) st by simp
  have ex: "extends h0 h" using sh by (simp add: shape_def)
  have len: "length h0 \<le> length h" using ex by (rule extends_length)
  show ?case
  proof (cases "is_object h v")
    case False
    have "val_addrs v = {}"
    proof (cases v)
      case (Ref a)
      then have "a < length h0" using Suc.prems(2) by (simp add: wf_val_def)
      then show ?thesis using False Ref len by simp
    qed simp_all
    then show ?thesis using False st sh by (simp add: deepClone_not_object)
  next
    case True
    then obtain a where v: "v = Ref a" and a: "a < length h" by (cases v) auto
    have a0: "a < length h0" using Suc.prems(2) v by (simp add: wf_val_def)
    show ?thesis
    proof (cases "sn a")
      case (Some c)
      then have "c \<in> fresh h0 h" using sh by (simp add: shape_def)
      then show ?thesis using st v a Some sh by (simp add: deepClone_seen)
    next
      case None
      let ?sn1 = "sn(a \<mapsto> length h)"
      let ?P = "\<lambda>s :: state. shape h0 s \<and> ?sn1 \<subseteq>\<^sub>m snd s"
      let ?D = "\<not> unseen h0 sn < Suc n"
      have u1: "unseen h0 ?sn1 < unseen h0 sn"
        using unseen_register [of a h0 sn "length h"] a0 None by simp
      have le: "sn \<subseteq>\<^sub>m ?sn1" using None by (auto simp: map_le_def)
      have stepf: "outcome_sat
             (\<lambda>x. ?P (snd x) \<and> val_addrs (fst x) \<subseteq> fresh h0 (fst (snd x)))
             (\<lambda>h'. True) ?D (deepClone n w s)"
        if "?P s" "wf_val h0 w" for w s
      proof -
        have u: "\<not> unseen h0 (snd s) < n \<Longrightarrow> ?D"
          using that(1) u1 unseen_mono [of ?sn1 "snd s" h0] by simp
        have "outcome_sat
           (\<lambda>x. shape h0 (snd x) \<and> snd s \<subseteq>\<^sub>m snd (snd x) \<and>
                val_addrs (fst x) \<subseteq> fresh h0 (fst (snd x)))
           (\<lambda>h'. True) (\<not> unseen h0 (snd s) < n) (deepClone n w s)"
          using Suc.IH [of s w] that by simp
        then show ?thesis
          by (rule outcome_sat_mono) (use that u in \<open>auto intro: map_le_trans\<close>)
      qed
      have fin: "sn \<subseteq>\<^sub>m snd s \<and> length h \<in> fresh h0 (fst s)" if "?P s" for s
      proof -
        have "snd s a = Some (length h)" using that by (auto simp: map_le_def dom_def)
        then have "length h \<in> fresh h0 (fst s)" using that by (auto simp: shape_def)
        moreover have "sn \<subseteq>\<^sub>m snd s" using that le map_le_trans by blast
        ultimately show ?thesis by simp
      qed
      show ?thesis
      proof (cases "h ! a")
        case (Arr vs)
        have vs: "h0 ! a = Arr vs" using extends_nth [OF ex a0] Arr by simp
        have A: "outcome_sat ?P (\<lambda>h'. True) ?D
                   (cloneElems (deepClone n) (length h) vs (h @ [Arr []], ?sn1))"
        proof (rule cloneElems_rule [where I = "\<lambda>pre. ?P"])
          show "?P (h @ [Arr []], ?sn1)" using shape_alloc [OF sh a0, of "Arr []"] by simp
        next
          fix pre w post s
          assume vs': "vs = pre @ w # post" and P: "?P s"
          have "wf_val h0 w" using wf_heap_elems [OF wf a0 vs, of w] vs' by simp
          then have "outcome_sat
             (\<lambda>x. ?P (snd x) \<and> val_addrs (fst x) \<subseteq> fresh h0 (fst (snd x)))
             (\<lambda>h'. True) ?D (deepClone n w s)"
            using stepf P by blast
          then show "outcome_sat (\<lambda>(c, (h', sn')). ?P (push h' (length h) c, sn'))
                       (\<lambda>h'. True) ?D (deepClone n w s)"
            by (rule outcome_sat_mono) (use len in \<open>auto intro: shape_push\<close>)
        qed
        show ?thesis
          unfolding st v
          using a None Arr
          by (simp add: outcome_sat_deepClone_unseen del: not_less)
             (rule outcome_sat_mono [OF A], use fin in auto)
      next
        case (Obj p ps)
        have B: "outcome_sat ?P (\<lambda>h'. True) ?D
                   (cloneProps (deepClone n) (length h) a (object_keys ps)
                      (h @ [Obj PObject []], ?sn1))"
        proof (rule cloneProps_rule [where I = "\<lambda>pre. ?P"])
          show "?P (h @ [Obj PObject []], ?sn1)"
            using shape_alloc [OF sh a0, of "Obj PObject []"] by simp
        next
          fix pre key post s
          assume P: "?P s"
          have "extends h0 (fst s)" using P by (simp add: shape_def)
          then have "wf_val h0 (get_prop (fst s) a key)"
            using wf_heap_get_prop [OF wf _ a0] by blast
          then have "outcome_sat
             (\<lambda>x. ?P (snd x) \<and> val_addrs (fst x) \<subseteq> fresh h0 (fst (snd x)))
             (\<lambda>h'. True) ?D (deepClone n (get_prop (fst s) a key) s)"
            using stepf P by blast
          then show "outcome_sat (\<lambda>(c, (h', sn')).
                       outcome_sat (\<lambda>h''. ?P (h'', sn')) (\<lambda>h'. True) ?D
                         (put_prop h' (length h) key c))
                     (\<lambda>h'. True) ?D (deepClone n (get_prop (fst s) a key) s)"
          proof (rule outcome_sat_mono)
            fix y :: "val \<times> state"
            assume y: "?P (snd y) \<and> val_addrs (fst y) \<subseteq> fresh h0 (fst (snd y))"
            obtain c h1 sn1 where yy: "y = (c, (h1, sn1))" by (cases y) auto
            have "outcome_sat (\<lambda>h'. shape h0 (h', sn1) \<and> length h' = length h1) (\<lambda>h'. True) False
                    (put_prop h1 (length h) key c)"
              using shape_put_prop [of h0 h1 sn1 "length h" c key] y yy len by simp
            then have "outcome_sat (\<lambda>h''. ?P (h'', sn1)) (\<lambda>h'. True) ?D
                    (put_prop h1 (length h) key c)"
              by (rule outcome_sat_mono) (use y yy in auto)
            then show "case y of (c, (h', sn')) \<Rightarrow>
                   outcome_sat (\<lambda>h''. ?P (h'', sn')) (\<lambda>h'. True) ?D
                     (put_prop h' (length h) key c)"
              using yy by simp
          qed simp_all
        qed
        show ?thesis
          unfolding st v
          using a None Obj
          by (simp add: outcome_sat_deepClone_unseen del: not_less)
             (rule outcome_sat_mono [OF B], use fin in auto)
      qed
    qed
  qed
qed


lemma shape_initial: "shape h (h, Map.empty)"
proof -
  have "proto_edges (length h) h = {}" by (auto simp: proto_edges_def)
  then show ?thesis by (simp add: shape_def extends_refl fresh_def acyclic_def)
qed

lemma unseen_initial: "unseen h Map.empty = length h"
  by (simp add: unseen_def)

lemma clone_shape:
  assumes wf: "wf_heap h" and v: "wf_val h v"
  shows "outcome_sat
           (\<lambda>x. \<exists>sn. shape h (snd x, sn) \<and> val_addrs (fst x) \<subseteq> fresh h (snd x))
           (\<lambda>h'. True) (\<not> length h < n) (clone n v h)"
proof -
  have "outcome_sat
           (\<lambda>x. shape h (snd x) \<and> snd (h, Map.empty) \<subseteq>\<^sub>m snd (snd x) \<and>
                val_addrs (fst x) \<subseteq> fresh h (fst (snd x)))
           (\<lambda>h'. True) (\<not> unseen h (snd (h, Map.empty)) < n) (deepClone n v (h, Map.empty))"
    using deepClone_shape [OF wf, of "(h, Map.empty)" v n] shape_initial v
    by simp
  then show ?thesis
    by (cases "deepClone n v (h, Map.empty)") (auto simp: clone_def unseen_initial)
qed

lemma clone_terminates_aux:
  assumes wf: "wf_heap h" and n: "length h < n"
  shows "clone n v h \<noteq> Timeout"
proof (cases "wf_val h v")
  case True
  then show ?thesis using clone_shape [OF wf True, of n] n by (cases "clone n v h") auto
next
  case False
  then have "\<not> is_object h v" by (cases v) (auto simp: wf_val_def)
  moreover obtain m where "n = Suc m" using n by (cases n) auto
  ultimately show ?thesis by (simp add: clone_def deepClone_not_object)
qed

lemma reach_fresh:
  assumes cl: "\<forall>ob \<in> fresh h0 h. refs_of (h ! ob) \<subseteq> fresh h0 h"
    and r: "val_addrs r \<subseteq> fresh h0 h"
  shows "reach h r \<subseteq> fresh h0 h"
proof
  fix a assume "a \<in> reach h r"
  then show "a \<in> fresh h0 h"
  proof induction
    case (root a)
    then show ?case using r by auto
  next
    case (step a b)
    then show ?case using cl by auto
  qed
qed

lemma reach_source:
  assumes wf: "wf_heap h0" and v: "wf_val h0 v" and ex: "extends h0 h"
  shows "reach h v \<subseteq> {..<length h0}"
proof
  fix a assume "a \<in> reach h v"
  then show "a \<in> {..<length h0}"
  proof induction
    case (root a)
    then show ?case using v by (auto simp: wf_val_def)
  next
    case (step a b)
    then have a: "a < length h0" by simp
    then have "h ! a = h0 ! a" using ex by (simp add: extends_nth)
    moreover have "h0 ! a \<in> set h0" using a by simp
    ultimately show ?case using wf step.hyps(2) by (auto simp: wf_heap_def)
  qed
qed

lemma clone_independent_aux:
  assumes wf: "wf_heap h" and v: "wf_val h v" and ret: "clone n v h = Return (r, h')"
  shows "reach h' r \<subseteq> {length h..<length h'} \<and> reach h' v \<subseteq> {..<length h} \<and> extends h h'"
proof -
  have ex: "extends h h'" using clone_frame [of h n v] ret by simp
  obtain sn where sh: "shape h (h', sn)" and r: "val_addrs r \<subseteq> fresh h h'"
    using clone_shape [OF wf v, of n] ret by auto
  have "reach h' r \<subseteq> fresh h h'"
    using sh r by (intro reach_fresh) (auto simp: shape_def)
  then show ?thesis using reach_source [OF wf v ex] ex by (simp add: fresh_def)
qed

section \<open>More fuel changes nothing\<close>

lemma cloneElems_more_fuel:
  assumes fg: "\<And>w s x. f w s = x \<Longrightarrow> x \<noteq> Timeout \<Longrightarrow> g w s = x"
  shows "cloneElems f arr vs st = y \<Longrightarrow> y \<noteq> Timeout \<Longrightarrow> cloneElems g arr vs st = y"
proof (induction vs arbitrary: st)
  case Nil
  then show ?case by simp
next
  case (Cons w vs)
  show ?case
  proof (cases "f w st")
    case (Return x)
    then have g: "g w st = Return x" using fg by blast
    obtain c h sn where x: "x = (c, (h, sn))" by (cases x) auto
    have "cloneElems f arr vs (push h arr c, sn) = y" using Cons.prems(1) Return x by simp
    then have "cloneElems g arr vs (push h arr c, sn) = y" using Cons.IH Cons.prems(2) by blast
    then show ?thesis using g x by simp
  next
    case (Throw e h)
    then have "g w st = Throw e h" using fg by blast
    then show ?thesis using Cons.prems(1) Throw by simp
  next
    case Timeout
    then show ?thesis using Cons.prems by simp
  qed
qed

lemma cloneProps_more_fuel:
  assumes fg: "\<And>w s x. f w s = x \<Longrightarrow> x \<noteq> Timeout \<Longrightarrow> g w s = x"
  shows "cloneProps f out a keys st = y \<Longrightarrow> y \<noteq> Timeout \<Longrightarrow> cloneProps g out a keys st = y"
proof (induction keys arbitrary: st)
  case Nil
  then show ?case by simp
next
  case (Cons key keys)
  let ?w = "get_prop (fst st) a key"
  show ?case
  proof (cases "f ?w st")
    case (Return x)
    then have g: "g ?w st = Return x" using fg by blast
    obtain c h sn where x: "x = (c, (h, sn))" by (cases x) auto
    show ?thesis
    proof (cases "put_prop h out key c")
      case R: (Return h')
      have "cloneProps f out a keys (h', sn) = y" using Cons.prems(1) Return x R by simp
      then have "cloneProps g out a keys (h', sn) = y" using Cons.IH Cons.prems(2) by blast
      then show ?thesis using g x R by simp
    next
      case T: (Throw e h')
      then show ?thesis using Cons.prems(1) Return g x by simp
    next
      case Timeout
      then show ?thesis using Cons.prems Return x by simp
    qed
  next
    case (Throw e h)
    then have "g ?w st = Throw e h" using fg by blast
    then show ?thesis using Cons.prems(1) Throw by simp
  next
    case Timeout
    then show ?thesis using Cons.prems by simp
  qed
qed

lemma deepClone_more_fuel:
  "deepClone n v st = x \<Longrightarrow> x \<noteq> Timeout \<Longrightarrow> deepClone (Suc n) v st = x"
proof (induction n arbitrary: v st x)
  case 0
  then show ?case by simp
next
  case (Suc n)
  obtain h sn where st: "st = (h, sn)" by (cases st) auto
  show ?case
  proof (cases "is_object h v")
    case False
    then show ?thesis using Suc.prems st by (simp add: deepClone_not_object)
  next
    case True
    then obtain a where v: "v = Ref a" and a: "a < length h" by (cases v) auto
    show ?thesis
    proof (cases "sn a")
      case (Some c)
      then show ?thesis using Suc.prems st v a by (simp add: deepClone_seen)
    next
      case None
      have u1: "deepClone (Suc n) (Ref a) (h, sn) = x" using Suc.prems(1) st v by simp
      show ?thesis
      proof (cases "h ! a")
        case (Arr vs)
        let ?L = "\<lambda>f. cloneElems f (length h) vs (h @ [Arr []], sn(a \<mapsto> length h))"
        have nt: "?L (deepClone n) \<noteq> Timeout"
          using u1 Suc.prems(2) a None Arr deepClone_unseen [of a h sn n] by auto
        have "?L (deepClone (Suc n)) = ?L (deepClone n)"
          by (rule cloneElems_more_fuel [OF Suc.IH _ nt]) simp_all
        then show ?thesis
          unfolding st v
          using u1 a None Arr deepClone_unseen [of a h sn n] deepClone_unseen [of a h sn "Suc n"]
          by simp
      next
        case (Obj p ps)
        let ?L = "\<lambda>f. cloneProps f (length h) a (object_keys ps)
                      (h @ [Obj PObject []], sn(a \<mapsto> length h))"
        have nt: "?L (deepClone n) \<noteq> Timeout"
          using u1 Suc.prems(2) a None Obj deepClone_unseen [of a h sn n] by auto
        have "?L (deepClone (Suc n)) = ?L (deepClone n)"
          by (rule cloneProps_more_fuel [OF Suc.IH _ nt]) simp_all
        then show ?thesis
          unfolding st v
          using u1 a None Obj deepClone_unseen [of a h sn n] deepClone_unseen [of a h sn "Suc n"]
          by simp
      qed
    qed
  qed
qed

lemma deepClone_fuel_mono:
  "deepClone n v st \<noteq> Timeout \<Longrightarrow> n \<le> m \<Longrightarrow> deepClone m v st = deepClone n v st"
proof (induction m)
  case 0
  then show ?case by simp
next
  case (Suc m)
  show ?case
  proof (cases "n = Suc m")
    case True
    then show ?thesis by simp
  next
    case False
    then have "deepClone m v st = deepClone n v st" using Suc by simp
    then show ?thesis using deepClone_more_fuel [of m v st "deepClone n v st"] Suc.prems(1) by simp
  qed
qed

lemma clone_fuel_mono:
  "clone n v h \<noteq> Timeout \<Longrightarrow> n \<le> m \<Longrightarrow> clone m v h = clone n v h"
proof -
  assume nt: "clone n v h \<noteq> Timeout" and le: "n \<le> m"
  have "deepClone n v (h, Map.empty) \<noteq> Timeout"
    using nt by (auto simp: clone_def)
  then have "deepClone m v (h, Map.empty) = deepClone n v (h, Map.empty)"
    using le by (rule deepClone_fuel_mono)
  then show ?thesis by (simp add: clone_def)
qed



section \<open>Termination and independence\<close>

text \<open>
  Claim C2. On a heap without dangling references the call terminates, cyclic graphs
  included: with more fuel than the heap has objects it never runs out of fuel, whatever
  the value, and more fuel gives the same outcome (it returns, or it throws, which is
  the subject of claim C9). And for \<^verbatim>\<open>let c = {}; c.self = c;\<close> the call
  \<^verbatim>\<open>deepClone(c)\<close> returns a new object \<open>r\<close> with \<^verbatim>\<open>r.self === r\<close>.
\<close>

theorem clone_terminates:
  "(wf_heap h \<and> length h < n \<and> n \<le> m \<longrightarrow>
      clone n v h \<noteq> Timeout \<and> clone m v h = clone n v h) \<and>
   clone 2 (Ref 0) self_heap = Return (Ref 1, self_heap_cloned) \<and>
   get_prop self_heap_cloned 1 ''self'' = Ref 1"
proof -
  have "clone 2 (Ref 0) self_heap = Return (Ref 1, self_heap_cloned)" by code_simp
  moreover have "get_prop self_heap_cloned 1 ''self'' = Ref 1" by code_simp
  ultimately show ?thesis
    using clone_terminates_aux [of h n v] clone_fuel_mono [of n v h m] by blast
qed

theorem clone_terminates_witness:
  "wf_heap shared_heap \<and> length shared_heap < 3 \<and> (3::nat) \<le> 5 \<and>
   clone 3 (Ref 0) shared_heap = Return (Ref 2, shared_heap_cloned) \<and>
   clone 5 (Ref 0) shared_heap = Return (Ref 2, shared_heap_cloned)"
proof -
  have 1: "wf_heap shared_heap" by (simp add: wf_heap_def shared_heap_def arrow_fn_def)
  have 2: "length shared_heap < 3" by (simp add: shared_heap_def)
  have 3: "clone 3 (Ref 0) shared_heap = Return (Ref 2, shared_heap_cloned)" by code_simp
  have "clone 5 (Ref 0) shared_heap = clone 3 (Ref 0) shared_heap"
    using 1 2 clone_terminates [of shared_heap 3 5 "Ref 0"] by simp
  then show ?thesis using 1 2 3 by simp
qed

text \<open>
  Claim C4. When the call returns, no object is reachable both from the result and from
  the input: every object reachable from the result was allocated by the call, every
  object reachable from the input existed before it and is unchanged. Hence writing any
  contents \<open>x\<close> into an object of the clone leaves every object of the input as it was
  before the call, and writing into an object of the input leaves every object of the
  clone as it is. (Functions are passed through as values and are not objects of the
  heap of the model.)
\<close>

theorem clone_shares_no_object:
  assumes "wf_heap h" and "wf_val h v" and "clone n v h = Return (r, h')"
  shows "reach h' r \<subseteq> {length h..<length h'} \<and> reach h' v \<subseteq> {..<length h} \<and>
         extends h h' \<and>
         (\<forall>c \<in> reach h' r. \<forall>a \<in> reach h' v. \<forall>x.
            (h'[c := x]) ! a = h ! a \<and> (h'[a := x]) ! c = h' ! c)"
proof -
  have A: "reach h' r \<subseteq> {length h..<length h'}" and B: "reach h' v \<subseteq> {..<length h}"
    and C: "extends h h'"
    using clone_independent_aux [OF assms] by simp_all
  have "(h'[c := x]) ! a = h ! a \<and> (h'[a := x]) ! c = h' ! c"
    if "c \<in> reach h' r" and "a \<in> reach h' v" for c a x
  proof -
    have "length h \<le> c" "a < length h" using that A B by auto
    then show ?thesis using extends_nth [OF C, of a] by simp
  qed
  then show ?thesis using A B C by blast
qed

theorem clone_shares_no_object_witness:
  "wf_heap shared_heap \<and> wf_val shared_heap (Ref 0) \<and>
   clone 3 (Ref 0) shared_heap = Return (Ref 2, shared_heap_cloned) \<and>
   reach shared_heap_cloned (Ref 2) \<subseteq> {length shared_heap..<length shared_heap_cloned} \<and>
   reach shared_heap_cloned (Ref 0) \<subseteq> {..<length shared_heap}"
proof -
  have 1: "wf_heap shared_heap" by (simp add: wf_heap_def shared_heap_def arrow_fn_def)
  have 2: "wf_val shared_heap (Ref 0)" by (simp add: wf_val_def shared_heap_def)
  have 3: "clone 3 (Ref 0) shared_heap = Return (Ref 2, shared_heap_cloned)" by code_simp
  show ?thesis using 1 2 3 clone_shares_no_object [OF 1 2 3] by blast
qed


section \<open>Graphs in which no node has the key \<open>__proto__\<close>: one clone for every node\<close>

text \<open>
  Where no object that deepClone visits has an own enumerable property named
  \<^verbatim>\<open>__proto__\<close>, the prototype of every new object stays \<^verbatim>\<open>Object.prototype\<close>, and
  every assignment \<^verbatim>\<open>out[key] = ...\<close> finds there nothing or a writable method and
  creates the property. The lemmas of this section follow the traversal under that
  condition.
\<close>

lemma clone_val_stable:
  "sn \<subseteq>\<^sub>m sn' \<Longrightarrow> val_addrs w \<subseteq> dom sn \<Longrightarrow> clone_val sn' w = clone_val sn w"
  by (cases w) (auto simp: map_le_def dom_def split: option.splits)

lemma spec_clone_stable:
  assumes le: "sn \<subseteq>\<^sub>m sn'" and known: "\<forall>w \<in> set (child_vals ob). val_addrs w \<subseteq> dom sn"
  shows "spec_clone sn' ob = spec_clone sn ob"
proof (cases ob)
  case (Arr vs)
  then show ?thesis using known clone_val_stable [OF le] by simp
next
  case (Obj p ps)
  have k: "clone_val sn' (prop_val ps k) = clone_val sn (prop_val ps k)"
    if "k \<in> set (object_keys ps)" for k
    using known that Obj clone_val_stable [OF le] by simp
  have "cloned_props sn' ps (object_keys ps) = cloned_props sn ps (object_keys ps)"
    using k by (simp add: cloned_props_def)
  then show ?thesis using Obj by simp
qed

lemma ran_fresh_lt: "one_to_one h0 (h, sn) \<Longrightarrow> sn a = Some c \<Longrightarrow> length h0 \<le> c \<and> c < length h"
proof -
  assume b: "one_to_one h0 (h, sn)" and s: "sn a = Some c"
  have "c \<in> ran sn" using s by (auto simp: ran_def)
  then show ?thesis using b by (simp add: one_to_one_def fresh_def)
qed

lemma one_to_one_alloc:
  assumes b: "one_to_one h0 (h, sn)" and a: "a < length h0" and None: "sn a = None"
  shows "one_to_one h0 (h @ [new], sn(a \<mapsto> length h))"
proof -
  have ex: "extends h0 h" and ran: "ran sn = fresh h0 h" and inj: "inj_on sn (dom sn)"
    and dom: "dom sn \<subseteq> {..<length h0}"
    using b by (simp_all add: one_to_one_def)
  have len: "length h0 \<le> length h" using ex by (rule extends_length)
  have 1: "extends h0 (h @ [new])" using ex extends_append extends_trans by blast
  have 2: "dom (sn(a \<mapsto> length h)) \<subseteq> {..<length h0}" using dom a by auto
  have nr: "length h \<notin> ran sn" using ran by (simp add: fresh_def)
  have 3: "inj_on (sn(a \<mapsto> length h)) (dom (sn(a \<mapsto> length h)))"
  proof (rule inj_onI)
    fix x y
    assume x: "x \<in> dom (sn(a \<mapsto> length h))" and y: "y \<in> dom (sn(a \<mapsto> length h))"
      and e: "(sn(a \<mapsto> length h)) x = (sn(a \<mapsto> length h)) y"
    show "x = y"
    proof (cases "x = a")
      case True
      show ?thesis
      proof (cases "y = a")
        case False
        then have "sn y = Some (length h)" using e True by simp
        then show ?thesis using nr by (auto simp: ran_def)
      qed (use True in simp)
    next
      case False
      show ?thesis
      proof (cases "y = a")
        case True
        then have "sn x = Some (length h)" using e False by simp
        then show ?thesis using nr by (auto simp: ran_def)
      next
        case F: False
        then have "sn x = sn y" "x \<in> dom sn" "y \<in> dom sn" using e False x y by auto
        then show ?thesis using inj by (auto dest: inj_onD)
      qed
    qed
  qed
  have 4: "ran (sn(a \<mapsto> length h)) = fresh h0 (h @ [new])"
    using None ran len by (auto simp: fresh_def)
  show ?thesis using 1 2 3 4 by (simp add: one_to_one_def)
qed

lemma copied_alloc:
  assumes b: "one_to_one h0 (h, sn)" and i: "copied h0 (h, sn) B" and None: "sn a = None"
  shows "copied h0 (h @ [new], sn(a \<mapsto> length h)) B"
proof -
  have le: "sn \<subseteq>\<^sub>m sn(a \<mapsto> length h)" using None by (auto simp: map_le_def)
  have B: "B \<subseteq> dom sn" using i by (simp add: copied_def)
  have "(h @ [new]) ! the ((sn(a \<mapsto> length h)) x) = spec_clone (sn(a \<mapsto> length h)) (h0 ! x) \<and>
        (\<forall>w \<in> set (child_vals (h0 ! x)). val_addrs w \<subseteq> dom (sn(a \<mapsto> length h)))"
    if x: "x \<in> B" for x
  proof -
    obtain c where c: "sn x = Some c" using x B by auto
    have xa: "x \<noteq> a" using c None by auto
    have cl: "c < length h" using ran_fresh_lt [OF b c] by simp
    have kn: "\<forall>w \<in> set (child_vals (h0 ! x)). val_addrs w \<subseteq> dom sn"
      and ob: "h ! c = spec_clone sn (h0 ! x)"
      using i x c by (auto simp: copied_def)
    have "spec_clone (sn(a \<mapsto> length h)) (h0 ! x) = spec_clone sn (h0 ! x)"
      using spec_clone_stable [OF le kn] .
    then show ?thesis using ob c xa cl kn by (auto simp: nth_append)
  qed
  then show ?thesis using B unfolding copied_def by auto
qed

lemma one_to_one_update:
  "one_to_one h0 (h, sn) \<Longrightarrow> length h0 \<le> c \<Longrightarrow> one_to_one h0 (h[c := new], sn)"
  by (auto simp: one_to_one_def fresh_def intro: extends_update)

lemma copied_update:
  assumes b: "one_to_one h0 (h, sn)" and i: "copied h0 (h, sn) B" and a: "sn a = Some c" and nb: "a \<notin> B"
  shows "copied h0 (h[c := new], sn) B"
proof -
  have B: "B \<subseteq> dom sn" using i by (simp add: copied_def)
  have inj: "inj_on sn (dom sn)" using b by (simp add: one_to_one_def)
  have "h[c := new] ! the (sn x) = h ! the (sn x)" if x: "x \<in> B" for x
  proof -
    obtain d where d: "sn x = Some d" using x B by auto
    have "x \<noteq> a" using x nb by auto
    then have "d \<noteq> c" using inj_onD [OF inj, of x a] d a by auto
    then show ?thesis using d by simp
  qed
  then show ?thesis using i unfolding copied_def by simp
qed

lemma copied_done:
  assumes i: "copied h0 (h, sn) B" and a: "sn a = Some c" and ob: "h ! c = spec_clone sn (h0 ! a)"
    and kn: "\<forall>w \<in> set (child_vals (h0 ! a)). val_addrs w \<subseteq> dom sn"
  shows "copied h0 (h, sn) (insert a B)"
  using assms unfolding copied_def by auto

lemma outcome_sat_conj:
  "outcome_sat R T D x \<Longrightarrow> outcome_sat R' T' D' x \<Longrightarrow>
   outcome_sat (\<lambda>y. R y \<and> R' y) (\<lambda>h. T h \<and> T' h) (D \<and> D') x"
  by (cases x) auto

lemma cloned_props_snoc:
  "cloned_props sn ps (pre @ [key]) =
     cloned_props sn ps pre @ [(SKey key, True, clone_val sn (prop_val ps key))]"
  by (simp add: cloned_props_def)

lemma cloned_stable:
  assumes "\<forall>k \<in> set pre. clone_val sn' (prop_val ps k) = clone_val sn (prop_val ps k)"
  shows "cloned_props sn' ps pre = cloned_props sn ps pre"
  using assms by (simp add: cloned_props_def)

lemma put_prop_plain:
  assumes "h ! c0 = Obj PObject qs" and "c0 < length h" and "key \<noteq> ''__proto__''"
  shows "put_prop h c0 key c = Return (h[c0 := Obj PObject (qs @ [(SKey key, True, c)])])"
  using assms by (simp add: put_prop_def object_prototype_slot_def)

lemma put_prop_copies:
  assumes ob: "h ! c0 = Obj PObject (cloned_props sn ps pre)"
    and c0: "c0 < length h" and r: "r = clone_val sn (prop_val ps key)"
    and key: "key \<noteq> ''__proto__''"
  shows "put_prop h c0 key r = Return (h[c0 := Obj PObject (cloned_props sn ps (pre @ [key]))])"
  using put_prop_plain [OF ob c0 key, of r] r by (simp add: cloned_props_snoc)

lemma progress_addr:
  assumes p: "progress h0 T B sn1 s" and a: "sn1 a = Some c0"
  shows "snd s a = Some c0" and "length h0 \<le> c0" and "c0 < length (fst s)"
proof -
  have le: "sn1 \<subseteq>\<^sub>m snd s" and b: "one_to_one h0 (fst s, snd s)"
    using p by (simp_all add: progress_def)
  show sa: "snd s a = Some c0" using le a by (auto simp: map_le_def dom_def)
  show "length h0 \<le> c0" and "c0 < length (fst s)"
    using ran_fresh_lt [OF b sa] by simp_all
qed

lemma progress_update:
  assumes p: "progress h0 T B sn1 (h, sn)" and a: "sn1 a = Some c0" and aB: "a \<notin> B"
  shows "progress h0 T B sn1 (h[c0 := new], sn)"
proof -
  have b: "one_to_one h0 (h, sn)" and c: "copied h0 (h, sn) (B \<union> (dom sn - dom sn1))"
    and d: "dom sn \<subseteq> T" and le: "sn1 \<subseteq>\<^sub>m sn"
    using p by (simp_all add: progress_def)
  have sa: "sn a = Some c0" and c0: "length h0 \<le> c0"
    using progress_addr [OF p a] by simp_all
  have "a \<notin> B \<union> (dom sn - dom sn1)" using aB a by auto
  then have "copied h0 (h[c0 := new], sn) (B \<union> (dom sn - dom sn1))"
    using copied_update [OF b c sa] by simp
  moreover have "one_to_one h0 (h[c0 := new], sn)"
    using one_to_one_update [OF b c0] .
  ultimately show ?thesis using d le by (simp add: progress_def)
qed

lemma progress_call:
  assumes p: "progress h0 T B sn1 s"
    and y: "call_post h0 T (B \<union> (dom (snd s) - dom sn1)) s w y"
  shows "progress h0 T B sn1 (snd y)" and "snd s \<subseteq>\<^sub>m snd (snd y)"
    and "extends (fst s) (fst (snd y))"
    and "fst y = clone_val (snd (snd y)) w" and "val_addrs w \<subseteq> dom (snd (snd y))"
proof -
  have le: "sn1 \<subseteq>\<^sub>m snd s" using p by (simp add: progress_def)
  have py: "progress h0 T (B \<union> (dom (snd s) - dom sn1)) (snd s) (snd y)"
    using y by (simp add: call_post_def)
  then show le2: "snd s \<subseteq>\<^sub>m snd (snd y)" by (simp add: progress_def)
  have d1: "dom sn1 \<subseteq> dom (snd s)" using le by (rule map_le_implies_dom_le)
  have d2: "dom (snd s) \<subseteq> dom (snd (snd y))" using le2 by (rule map_le_implies_dom_le)
  have eq: "B \<union> (dom (snd s) - dom sn1) \<union> (dom (snd (snd y)) - dom (snd s)) =
            B \<union> (dom (snd (snd y)) - dom sn1)"
    using d1 d2 by blast
  have "copied h0 (snd y) (B \<union> (dom (snd s) - dom sn1) \<union> (dom (snd (snd y)) - dom (snd s)))"
    using py by (simp add: progress_def)
  then have "copied h0 (snd y) (B \<union> (dom (snd (snd y)) - dom sn1))"
    unfolding eq .
  moreover have "sn1 \<subseteq>\<^sub>m snd (snd y)" using le le2 by (rule map_le_trans)
  moreover have "one_to_one h0 (snd y)" "dom (snd (snd y)) \<subseteq> T"
    using py by (simp_all add: progress_def)
  ultimately show "progress h0 T B sn1 (snd y)" by (simp add: progress_def)
  show "extends (fst s) (fst (snd y))" "fst y = clone_val (snd (snd y)) w"
    "val_addrs w \<subseteq> dom (snd (snd y))"
    using y by (simp_all add: call_post_def)
qed

lemma progress_start:
  assumes b: "one_to_one h0 (h, sn)" and c: "copied h0 (h, sn) B" and d: "dom sn \<subseteq> T"
    and a: "a \<in> T" and a0: "a < length h0" and None: "sn a = None"
  shows "progress h0 T B (sn(a \<mapsto> length h)) (h @ [new], sn(a \<mapsto> length h))"
proof -
  have "one_to_one h0 (h @ [new], sn(a \<mapsto> length h))"
    using one_to_one_alloc [OF b a0 None] .
  moreover have "copied h0 (h @ [new], sn(a \<mapsto> length h)) B"
    using copied_alloc [OF b c None] .
  moreover have "dom (sn(a \<mapsto> length h)) \<subseteq> T" using d a by simp
  ultimately show ?thesis by (simp add: progress_def)
qed

lemma progress_done:
  assumes p: "progress h0 T B (sn(a \<mapsto> c0)) s" and None: "sn a = None"
    and ob: "fst s ! c0 = spec_clone (snd s) (h0 ! a)"
    and kn: "\<forall>w \<in> set (child_vals (h0 ! a)). val_addrs w \<subseteq> dom (snd s)"
  shows "progress h0 T B sn s" and "Ref c0 = clone_val (snd s) (Ref a)"
    and "val_addrs (Ref a) \<subseteq> dom (snd s)"
proof -
  have sa: "snd s a = Some c0" using progress_addr(1) [OF p, of a c0] by simp
  have c: "copied h0 (fst s, snd s) (B \<union> (dom (snd s) - dom (sn(a \<mapsto> c0))))"
    and le: "sn(a \<mapsto> c0) \<subseteq>\<^sub>m snd s" and b: "one_to_one h0 s" and d: "dom (snd s) \<subseteq> T"
    using p by (simp_all add: progress_def)
  have "copied h0 (fst s, snd s) (insert a (B \<union> (dom (snd s) - dom (sn(a \<mapsto> c0)))))"
    using copied_done [OF c sa ob kn] .
  moreover have "insert a (B \<union> (dom (snd s) - dom (sn(a \<mapsto> c0)))) = B \<union> (dom (snd s) - dom sn)"
    using sa None by auto
  ultimately have "copied h0 s (B \<union> (dom (snd s) - dom sn))" by simp
  moreover have "sn \<subseteq>\<^sub>m sn(a \<mapsto> c0)" using None by (auto simp: map_le_def)
  then have "sn \<subseteq>\<^sub>m snd s" using le by (rule map_le_trans)
  ultimately show "progress h0 T B sn s" using b d by (simp add: progress_def)
  show "Ref c0 = clone_val (snd s) (Ref a)" using sa by simp
  show "val_addrs (Ref a) \<subseteq> dom (snd s)" using sa by auto
qed


lemma cloneElems_copies:
  assumes f: "call_ok h0 T f" and a: "sn1 a = Some c0" and aB: "a \<notin> B"
    and vsT: "\<forall>w \<in> set vs. val_addrs w \<subseteq> T"
    and p0: "progress h0 T B sn1 st" and ob0: "fst st ! c0 = Arr []"
  shows "outcome_sat
           (\<lambda>s. progress h0 T B sn1 s \<and> fst s ! c0 = Arr (map (clone_val (snd s)) vs) \<and>
                (\<forall>w \<in> set vs. val_addrs w \<subseteq> dom (snd s)))
           (\<lambda>h'. False) True (cloneElems f c0 vs st)"
proof (rule cloneElems_rule
    [where I = "\<lambda>pre s. progress h0 T B sn1 s \<and> fst s ! c0 = Arr (map (clone_val (snd s)) pre) \<and>
                (\<forall>w \<in> set pre. val_addrs w \<subseteq> dom (snd s))"])
  show "progress h0 T B sn1 st \<and> fst st ! c0 = Arr (map (clone_val (snd st)) []) \<and>
        (\<forall>w \<in> set []. val_addrs w \<subseteq> dom (snd st))"
    using p0 ob0 by simp
next
  fix pre w post s
  assume vs': "vs = pre @ w # post"
    and I: "progress h0 T B sn1 s \<and> fst s ! c0 = Arr (map (clone_val (snd s)) pre) \<and>
            (\<forall>w \<in> set pre. val_addrs w \<subseteq> dom (snd s))"
  have p: "progress h0 T B sn1 s" and ob: "fst s ! c0 = Arr (map (clone_val (snd s)) pre)"
    and kn: "\<forall>w \<in> set pre. val_addrs w \<subseteq> dom (snd s)"
    using I by blast+
  have wT: "val_addrs w \<subseteq> T" using vsT vs' by simp
  have pre: "one_to_one h0 s \<and> copied h0 s (B \<union> (dom (snd s) - dom sn1)) \<and>
             dom (snd s) \<subseteq> T \<and> val_addrs w \<subseteq> T"
    using p wT by (simp add: progress_def)
  have call: "outcome_sat (call_post h0 T (B \<union> (dom (snd s) - dom sn1)) s w) (\<lambda>h'. False) True (f w s)"
    using f pre unfolding call_ok_def by blast
  show "outcome_sat
          (\<lambda>(c, (h', sn')). progress h0 T B sn1 (push h' c0 c, sn') \<and>
             fst (push h' c0 c, sn') ! c0 = Arr (map (clone_val (snd (push h' c0 c, sn'))) (pre @ [w])) \<and>
             (\<forall>w \<in> set (pre @ [w]). val_addrs w \<subseteq> dom (snd (push h' c0 c, sn'))))
          (\<lambda>h'. False) True (f w s)"
  proof (rule outcome_sat_mono [OF call])
    fix y :: "val \<times> state"
    assume y: "call_post h0 T (B \<union> (dom (snd s) - dom sn1)) s w y"
    obtain c h' sn' where yy: "y = (c, (h', sn'))" by (cases y) auto
    have p': "progress h0 T B sn1 (h', sn')" and le: "snd s \<subseteq>\<^sub>m sn'"
      and ex: "extends (fst s) h'" and c: "c = clone_val sn' w" and wk: "val_addrs w \<subseteq> dom sn'"
      using progress_call [OF p y] yy by simp_all
    have c0s: "c0 < length (fst s)" using progress_addr(3) [OF p a] .
    have c0': "c0 < length h'" using progress_addr(3) [OF p' a] by simp
    have "map (clone_val sn') pre = map (clone_val (snd s)) pre"
      using kn clone_val_stable [OF le] by simp
    moreover have "h' ! c0 = fst s ! c0" using extends_nth [OF ex c0s] .
    ultimately have hc: "h' ! c0 = Arr (map (clone_val sn') pre)" using ob by simp
    have pu: "push h' c0 c = h'[c0 := Arr (map (clone_val sn') (pre @ [w]))]"
      using hc c0' c by (simp add: push_def)
    have 1: "progress h0 T B sn1 (push h' c0 c, sn')"
      unfolding pu using progress_update [OF p' a aB] .
    have 2: "push h' c0 c ! c0 = Arr (map (clone_val sn') (pre @ [w]))"
      unfolding pu using c0' by simp
    have dd: "dom (snd s) \<subseteq> dom sn'" using le by (rule map_le_implies_dom_le)
    have 3: "\<forall>u \<in> set (pre @ [w]). val_addrs u \<subseteq> dom sn'"
    proof
      fix u assume "u \<in> set (pre @ [w])"
      then have "u \<in> set pre \<or> u = w" by auto
      then show "val_addrs u \<subseteq> dom sn'" using kn wk dd by blast
    qed
    show "case y of (c, (h', sn')) \<Rightarrow> progress h0 T B sn1 (push h' c0 c, sn') \<and>
             fst (push h' c0 c, sn') ! c0 = Arr (map (clone_val (snd (push h' c0 c, sn'))) (pre @ [w])) \<and>
             (\<forall>w \<in> set (pre @ [w]). val_addrs w \<subseteq> dom (snd (push h' c0 c, sn')))"
      unfolding yy using 1 2 3 by simp
  qed simp_all
qed

lemma cloneProps_copies:
  assumes f: "call_ok h0 T f" and a: "sn1 a = Some c0" and aB: "a \<notin> B"
    and a0: "a < length h0" and ha: "h0 ! a = Obj p ps"
    and ksT: "\<forall>k \<in> set keys. val_addrs (prop_val ps k) \<subseteq> T"
    and np: "''__proto__'' \<notin> set keys"
    and p0: "progress h0 T B sn1 st" and ob0: "fst st ! c0 = Obj PObject []"
  shows "outcome_sat
           (\<lambda>s. progress h0 T B sn1 s \<and>
                fst s ! c0 = Obj PObject (cloned_props (snd s) ps keys) \<and>
                (\<forall>k \<in> set keys. val_addrs (prop_val ps k) \<subseteq> dom (snd s)))
           (\<lambda>h'. False) True (cloneProps f c0 a keys st)"
proof (rule cloneProps_rule
    [where I = "\<lambda>pre s. progress h0 T B sn1 s \<and>
                fst s ! c0 = Obj PObject (cloned_props (snd s) ps pre) \<and>
                (\<forall>k \<in> set pre. val_addrs (prop_val ps k) \<subseteq> dom (snd s))"])
  show "progress h0 T B sn1 st \<and>
        fst st ! c0 = Obj PObject (cloned_props (snd st) ps []) \<and>
        (\<forall>k \<in> set []. val_addrs (prop_val ps k) \<subseteq> dom (snd st))"
    using p0 ob0 by (simp add: cloned_props_def)
next
  fix pre key post s
  assume ks: "keys = pre @ key # post"
    and I: "progress h0 T B sn1 s \<and>
            fst s ! c0 = Obj PObject (cloned_props (snd s) ps pre) \<and>
            (\<forall>k \<in> set pre. val_addrs (prop_val ps k) \<subseteq> dom (snd s))"
  let ?w = "prop_val ps key"
  have p: "progress h0 T B sn1 s"
    and ob: "fst s ! c0 = Obj PObject (cloned_props (snd s) ps pre)"
    and kn: "\<forall>k \<in> set pre. val_addrs (prop_val ps k) \<subseteq> dom (snd s)"
    using I by blast+
  have key: "key \<noteq> ''__proto__''" using np ks by auto
  have exs: "extends h0 (fst s)" using p by (simp add: progress_def one_to_one_def)
  have "fst s ! a = Obj p ps" using extends_nth [OF exs a0] ha by simp
  moreover have "a < length (fst s)" using a0 extends_length [OF exs] by simp
  ultimately have g: "get_prop (fst s) a key = ?w" by (simp add: get_prop_def)
  have wT: "val_addrs ?w \<subseteq> T" using ksT ks by simp
  have pre: "one_to_one h0 s \<and> copied h0 s (B \<union> (dom (snd s) - dom sn1)) \<and>
             dom (snd s) \<subseteq> T \<and> val_addrs ?w \<subseteq> T"
    using p wT by (simp add: progress_def)
  have call: "outcome_sat (call_post h0 T (B \<union> (dom (snd s) - dom sn1)) s ?w) (\<lambda>h'. False) True
                (f ?w s)"
    using f pre unfolding call_ok_def by blast
  show "outcome_sat
          (\<lambda>(c, (h', sn')).
             outcome_sat
               (\<lambda>h''. progress h0 T B sn1 (h'', sn') \<and>
                  fst (h'', sn') ! c0 = Obj PObject (cloned_props (snd (h'', sn')) ps (pre @ [key])) \<and>
                  (\<forall>k \<in> set (pre @ [key]). val_addrs (prop_val ps k) \<subseteq> dom (snd (h'', sn'))))
               (\<lambda>h'. False) True (put_prop h' c0 key c))
          (\<lambda>h'. False) True (f (get_prop (fst s) a key) s)"
    unfolding g
  proof (rule outcome_sat_mono [OF call])
    fix y :: "val \<times> state"
    assume y: "call_post h0 T (B \<union> (dom (snd s) - dom sn1)) s ?w y"
    obtain c h' sn' where yy: "y = (c, (h', sn'))" by (cases y) auto
    have p': "progress h0 T B sn1 (h', sn')" and le: "snd s \<subseteq>\<^sub>m sn'"
      and ex: "extends (fst s) h'" and c: "c = clone_val sn' ?w" and wk: "val_addrs ?w \<subseteq> dom sn'"
      using progress_call [OF p y] yy by simp_all
    have c0s: "c0 < length (fst s)" using progress_addr(3) [OF p a] .
    have c0': "c0 < length h'" using progress_addr(3) [OF p' a] by simp
    have "\<forall>k \<in> set pre. clone_val sn' (prop_val ps k) = clone_val (snd s) (prop_val ps k)"
      using kn clone_val_stable [OF le] by simp
    then have st: "cloned_props sn' ps pre = cloned_props (snd s) ps pre"
      by (rule cloned_stable)
    have "h' ! c0 = fst s ! c0" using extends_nth [OF ex c0s] .
    then have hc: "h' ! c0 = Obj PObject (cloned_props sn' ps pre)"
      using ob st by simp
    have dd: "dom (snd s) \<subseteq> dom sn'" using le by (rule map_le_implies_dom_le)
    have 3: "\<forall>k \<in> set (pre @ [key]). val_addrs (prop_val ps k) \<subseteq> dom sn'"
    proof
      fix k assume "k \<in> set (pre @ [key])"
      then have "k \<in> set pre \<or> k = key" by auto
      then show "val_addrs (prop_val ps k) \<subseteq> dom sn'" using kn wk dd by blast
    qed
    let ?h'' = "h'[c0 := Obj PObject (cloned_props sn' ps (pre @ [key]))]"
    have put: "put_prop h' c0 key c = Return ?h''"
      using put_prop_copies [OF hc c0' c key] .
    have 1: "progress h0 T B sn1 (?h'', sn')"
      using progress_update [OF p' a aB] .
    have 2: "?h'' ! c0 = Obj PObject (cloned_props sn' ps (pre @ [key]))"
      using c0' by simp
    show "case y of (c, (h', sn')) \<Rightarrow>
             outcome_sat
               (\<lambda>h''. progress h0 T B sn1 (h'', sn') \<and>
                  fst (h'', sn') ! c0 = Obj PObject (cloned_props (snd (h'', sn')) ps (pre @ [key])) \<and>
                  (\<forall>k \<in> set (pre @ [key]). val_addrs (prop_val ps k) \<subseteq> dom (snd (h'', sn'))))
               (\<lambda>h'. False) True (put_prop h' c0 key c)"
      unfolding yy using put 1 2 3 by simp
  qed simp_all
qed


lemma progress_refl:
  "one_to_one h0 (h, sn) \<Longrightarrow> copied h0 (h, sn) B \<Longrightarrow> dom sn \<subseteq> T \<Longrightarrow>
   progress h0 T B sn (h, sn)"
  by (simp add: progress_def)

lemma deepClone_call_ok:
  assumes T: "\<forall>a \<in> T. a < length h0 \<and> \<not> has_proto_key (h0 ! a) \<and>
                (\<forall>w \<in> set (child_vals (h0 ! a)). val_addrs w \<subseteq> T)"
  shows "call_ok h0 T (deepClone n)"
proof (induction n)
  case 0
  show ?case by (simp add: call_ok_def)
next
  case (Suc n)
  show ?case
    unfolding call_ok_def
  proof (intro allI impI)
    fix v :: val and st :: state and B
    assume pre: "one_to_one h0 st \<and> copied h0 st B \<and> dom (snd st) \<subseteq> T \<and> val_addrs v \<subseteq> T"
    obtain h sn where st: "st = (h, sn)" by (cases st) auto
    have b: "one_to_one h0 (h, sn)" and i: "copied h0 (h, sn) B" and d: "dom sn \<subseteq> T"
      and vT: "val_addrs v \<subseteq> T"
      using pre st by simp_all
    have ex: "extends h0 h" using b by (simp add: one_to_one_def)
    have len: "length h0 \<le> length h" using ex by (rule extends_length)
    have BB: "B \<subseteq> dom sn" using i by (simp add: copied_def)
    have p: "progress h0 T B sn (h, sn)" using progress_refl [OF b i d] .
    show "outcome_sat (call_post h0 T B st v) (\<lambda>h'. False) True (deepClone (Suc n) v st)"
    proof (cases "is_object h v")
      case False
      have nv: "val_addrs v = {}"
      proof (cases v)
        case (Ref a)
        then have "a < length h0" using vT T by simp
        then show ?thesis using False Ref len by simp
      qed simp_all
      then have "clone_val sn v = v" by (cases v) auto
      then show ?thesis
        using False st p nv by (simp add: deepClone_not_object call_post_def extends_refl)
    next
      case True
      then obtain a where v: "v = Ref a" and a: "a < length h" by (cases v) auto
      have aT: "a \<in> T" using vT v by simp
      have a0: "a < length h0" using aT T by simp
      have ha: "h ! a = h0 ! a" using extends_nth [OF ex a0] .
      have ch: "\<forall>w \<in> set (child_vals (h0 ! a)). val_addrs w \<subseteq> T" using aT T by blast
      show ?thesis
      proof (cases "sn a")
        case (Some c)
        have "a \<in> dom sn" using Some by auto
        then show ?thesis
          using st v a p Some by (simp add: deepClone_seen call_post_def extends_refl)
      next
        case None
        let ?c0 = "length h"
        let ?sn1 = "sn(a \<mapsto> ?c0)"
        have sa: "?sn1 a = Some ?c0" by simp
        have aB: "a \<notin> B" using BB None by auto
        have p1: "progress h0 T B ?sn1 (h @ [new], ?sn1)" for new
          using progress_start [OF b i d aT a0 None] .
        have gr: "outcome_sat (\<lambda>x. extends h (fst (snd x))) (\<lambda>h'. True) True
                    (deepClone (Suc n) (Ref a) (h, sn))"
          by (rule outcome_sat_mono [OF deepClone_grows [of "(h, sn)" "Suc n" "Ref a"]]) simp_all
        have main: "outcome_sat
           (\<lambda>x. progress h0 T B sn (snd x) \<and> fst x = clone_val (snd (snd x)) (Ref a) \<and>
                val_addrs (Ref a) \<subseteq> dom (snd (snd x)))
           (\<lambda>h'. False) True (deepClone (Suc n) (Ref a) (h, sn))"
        proof (cases "h0 ! a")
          case (Arr vs)
          have vsT: "\<forall>w \<in> set vs. val_addrs w \<subseteq> T" using ch Arr by simp
          have L: "outcome_sat
             (\<lambda>s. progress h0 T B ?sn1 s \<and> fst s ! ?c0 = Arr (map (clone_val (snd s)) vs) \<and>
                  (\<forall>w \<in> set vs. val_addrs w \<subseteq> dom (snd s)))
             (\<lambda>h'. False) True (cloneElems (deepClone n) ?c0 vs (h @ [Arr []], ?sn1))"
            by (rule cloneElems_copies [OF Suc.IH sa aB vsT p1]) simp
          have E: "outcome_sat
             (\<lambda>s. progress h0 T B sn s \<and> Ref ?c0 = clone_val (snd s) (Ref a) \<and>
                  val_addrs (Ref a) \<subseteq> dom (snd s))
             (\<lambda>h'. False) True (cloneElems (deepClone n) ?c0 vs (h @ [Arr []], ?sn1))"
          proof (rule outcome_sat_mono [OF L])
            fix s :: state
            assume s: "progress h0 T B ?sn1 s \<and> fst s ! ?c0 = Arr (map (clone_val (snd s)) vs) \<and>
                  (\<forall>w \<in> set vs. val_addrs w \<subseteq> dom (snd s))"
            have ob: "fst s ! ?c0 = spec_clone (snd s) (h0 ! a)" using s Arr by simp
            have kn: "\<forall>w \<in> set (child_vals (h0 ! a)). val_addrs w \<subseteq> dom (snd s)"
              using s Arr by simp
            show "progress h0 T B sn s \<and> Ref ?c0 = clone_val (snd s) (Ref a) \<and>
                  val_addrs (Ref a) \<subseteq> dom (snd s)"
              using progress_done [of h0 T B sn a ?c0 s] None ob kn s by blast
          qed simp_all
          show ?thesis
            using a None ha Arr E by (simp add: outcome_sat_deepClone_unseen)
        next
          case (Obj q ps)
          have ksT: "\<forall>k \<in> set (object_keys ps). val_addrs (prop_val ps k) \<subseteq> T"
            using ch Obj by simp
          have "\<not> has_proto_key (h0 ! a)" using aT T by blast
          then have npk: "''__proto__'' \<notin> set (object_keys ps)" using Obj by simp
          have L: "outcome_sat
             (\<lambda>s. progress h0 T B ?sn1 s \<and>
                  fst s ! ?c0 = Obj PObject (cloned_props (snd s) ps (object_keys ps)) \<and>
                  (\<forall>k \<in> set (object_keys ps). val_addrs (prop_val ps k) \<subseteq> dom (snd s)))
             (\<lambda>h'. False) True
             (cloneProps (deepClone n) ?c0 a (object_keys ps) (h @ [Obj PObject []], ?sn1))"
            by (rule cloneProps_copies [OF Suc.IH sa aB a0 Obj ksT npk p1]) simp
          have E: "outcome_sat
             (\<lambda>s. progress h0 T B sn s \<and> Ref ?c0 = clone_val (snd s) (Ref a) \<and>
                  val_addrs (Ref a) \<subseteq> dom (snd s))
             (\<lambda>h'. False) True
             (cloneProps (deepClone n) ?c0 a (object_keys ps) (h @ [Obj PObject []], ?sn1))"
          proof (rule outcome_sat_mono [OF L])
            fix s :: state
            assume s: "progress h0 T B ?sn1 s \<and>
                  fst s ! ?c0 = Obj PObject (cloned_props (snd s) ps (object_keys ps)) \<and>
                  (\<forall>k \<in> set (object_keys ps). val_addrs (prop_val ps k) \<subseteq> dom (snd s))"
            have ob: "fst s ! ?c0 = spec_clone (snd s) (h0 ! a)" using s Obj by simp
            have kn: "\<forall>w \<in> set (child_vals (h0 ! a)). val_addrs w \<subseteq> dom (snd s)"
              using s Obj by simp
            show "progress h0 T B sn s \<and> Ref ?c0 = clone_val (snd s) (Ref a) \<and>
                  val_addrs (Ref a) \<subseteq> dom (snd s)"
              using progress_done [of h0 T B sn a ?c0 s] None ob kn s by blast
          qed simp_all
          show ?thesis
            using a None ha Obj E by (simp add: outcome_sat_deepClone_unseen)
        qed
        show ?thesis
          unfolding st v
          by (rule outcome_sat_mono [OF outcome_sat_conj [OF main gr]])
             (simp_all add: call_post_def)
      qed
    qed
  qed
qed


lemma child_vals_refs: "w \<in> set (child_vals ob) \<Longrightarrow> val_addrs w \<subseteq> refs_of ob"
proof (cases ob)
  case (Arr vs)
  assume "w \<in> set (child_vals ob)"
  then show ?thesis using Arr by auto
next
  case (Obj p ps)
  assume "w \<in> set (child_vals ob)"
  then obtain k where w: "w = prop_val ps k" using Obj by auto
  show ?thesis
  proof (cases "own_prop ps k")
    case None
    then show ?thesis using w by (simp add: prop_val_def)
  next
    case (Some u)
    then have "u \<in> (\<lambda>x. snd (snd x)) ` set ps" by (rule own_prop_in_set)
    then show ?thesis using w Some Obj by (auto simp: prop_val_def)
  qed
qed

lemma traversed_closed:
  assumes wf: "wf_heap h"
  shows "\<forall>a \<in> traversed h v. a < length h \<and>
           (\<forall>w \<in> set (child_vals (h ! a)). val_addrs w \<subseteq> traversed h v)"
proof
  fix a assume a: "a \<in> traversed h v"
  have al: "a < length h" using a by (induction) auto
  have "val_addrs w \<subseteq> traversed h v" if w: "w \<in> set (child_vals (h ! a))" for w
  proof
    fix b assume b: "b \<in> val_addrs w"
    have "h ! a \<in> set h" using al by simp
    moreover have "b \<in> refs_of (h ! a)" using child_vals_refs [OF w] b by auto
    ultimately have "b < length h" using wf by (auto simp: wf_heap_def)
    then show "b \<in> traversed h v" using traversed.step [OF a w b] by simp
  qed
  then show "a < length h \<and> (\<forall>w \<in> set (child_vals (h ! a)). val_addrs w \<subseteq> traversed h v)"
    using al by simp
qed

lemma one_to_one_initial: "one_to_one h (h, Map.empty)"
  by (simp add: one_to_one_def extends_refl fresh_def)

lemma copied_initial: "copied h (h, Map.empty) {}"
  by (simp add: copied_def)

lemma deepClone_top:
  assumes wf: "wf_heap h" and v: "wf_val h v"
    and np: "\<forall>a \<in> traversed h v. \<not> has_proto_key (h ! a)"
  shows "outcome_sat (call_post h (traversed h v) {} (h, Map.empty) v)
           (\<lambda>h'. False) True (deepClone n v (h, Map.empty))"
proof -
  let ?T = "traversed h v"
  have T: "\<forall>a \<in> ?T. a < length h \<and> \<not> has_proto_key (h ! a) \<and>
             (\<forall>w \<in> set (child_vals (h ! a)). val_addrs w \<subseteq> ?T)"
    using traversed_closed [OF wf, of v] np by blast
  have vT: "val_addrs v \<subseteq> ?T"
    using v by (auto simp: wf_val_def intro: traversed.root)
  have pre: "one_to_one h (h, Map.empty) \<and> copied h (h, Map.empty) {} \<and>
             dom (snd (h, Map.empty :: seen)) \<subseteq> ?T \<and> val_addrs v \<subseteq> ?T"
    using one_to_one_initial [of h] copied_initial [of h] vT by simp
  have "call_ok h ?T (deepClone n)" by (rule deepClone_call_ok [OF T])
  then have "\<forall>v st B. one_to_one h st \<and> copied h st B \<and> dom (snd st) \<subseteq> ?T \<and> val_addrs v \<subseteq> ?T \<longrightarrow>
        outcome_sat (call_post h ?T B st v) (\<lambda>h'. False) True (deepClone n v st)"
    by (simp only: call_ok_def)
  then show ?thesis using pre by blast
qed

text \<open>
  When \<^verbatim>\<open>deepClone(V)\<close> returns on such a graph, the map \<open>sn\<close> it built has exactly the
  nodes reachable from \<open>V\<close> as its keys, is injective, and its values are exactly the
  objects the call allocated: every reachable node has one clone, and as many objects
  were allocated as there are reachable nodes. Each clone is what the specification says:
  wherever a node holds a reference to a node \<open>S\<close>, its clone holds, in the same field
  or at the same index, the reference to the one clone of \<open>S\<close>.
\<close>

lemma deepClone_isomorphic:
  assumes wf: "wf_heap h" and v: "wf_val h v"
    and np: "\<forall>a \<in> traversed h v. \<not> has_proto_key (h ! a)"
    and ret: "deepClone n v (h, Map.empty) = Return (r, (h', sn))"
  shows "dom sn = traversed h v" and "inj_on sn (dom sn)" and "ran sn = {length h..<length h'}"
    and "r = clone_val sn v"
    and "\<forall>a \<in> dom sn. h' ! the (sn a) = spec_clone sn (h ! a) \<and>
           (\<forall>w \<in> set (child_vals (h ! a)). val_addrs w \<subseteq> dom sn)"
    and "length h' = length h + card (traversed h v)"
proof -
  let ?T = "traversed h v"
  have "outcome_sat (call_post h ?T {} (h, Map.empty) v)
          (\<lambda>h'. False) True (deepClone n v (h, Map.empty))"
    using deepClone_top [OF wf v np] .
  then have post: "call_post h ?T {} (h, Map.empty) v (r, (h', sn))" using ret by simp
  have b: "one_to_one h (h', sn)" and c: "copied h (h', sn) (dom sn)" and d: "dom sn \<subseteq> ?T"
    and r: "r = clone_val sn v" and vk: "val_addrs v \<subseteq> dom sn"
    using post by (simp_all add: call_post_def progress_def)
  have all: "\<forall>a \<in> dom sn. h' ! the (sn a) = spec_clone sn (h ! a) \<and>
           (\<forall>w \<in> set (child_vals (h ! a)). val_addrs w \<subseteq> dom sn)"
    using c by (simp add: copied_def)
  have "?T \<subseteq> dom sn"
  proof
    fix a assume "a \<in> ?T"
    then show "a \<in> dom sn"
    proof induction
      case (root a)
      then show ?case using vk by auto
    next
      case (step a w b)
      then show ?case using all by blast
    qed
  qed
  then show dT: "dom sn = ?T" using d by auto
  show inj: "inj_on sn (dom sn)" using b by (simp add: one_to_one_def)
  show ran: "ran sn = {length h..<length h'}" using b by (simp add: one_to_one_def fresh_def)
  show "r = clone_val sn v" by (rule r)
  show "\<forall>a \<in> dom sn. h' ! the (sn a) = spec_clone sn (h ! a) \<and>
           (\<forall>w \<in> set (child_vals (h ! a)). val_addrs w \<subseteq> dom sn)" by (rule all)
  have fin: "finite (dom sn)"
  proof -
    have "dom sn \<subseteq> {..<length h}" using b by (simp add: one_to_one_def)
    then show ?thesis by (rule finite_subset) simp
  qed
  have "ran sn = (\<lambda>a. the (sn a)) ` dom sn"
    by (auto simp: ran_def dom_def image_iff) (metis option.sel)
  moreover have "inj_on (\<lambda>a. the (sn a)) (dom sn)"
  proof (rule inj_onI)
    fix x y assume x: "x \<in> dom sn" and y: "y \<in> dom sn" and e: "the (sn x) = the (sn y)"
    then have "sn x = sn y" by auto
    then show "x = y" using inj x y by (auto dest: inj_onD)
  qed
  ultimately have "card (ran sn) = card (dom sn)" by (simp add: card_image)
  then have "length h' - length h = card ?T" using ran dT by simp
  moreover have "length h \<le> length h'" using b extends_length by (auto simp: one_to_one_def)
  ultimately show "length h' = length h + card ?T" by simp
qed


section \<open>What the loops put into the new container\<close>

text \<open>
  A call on a value of the heap returns the image of the value under the map as it is
  after the call, and leaves the objects that existed before it as they were.
\<close>

lemma wf_val_extends: "wf_val h w \<Longrightarrow> extends h h' \<Longrightarrow> wf_val h' w"
  using extends_length [of h h'] by (fastforce simp: wf_val_def)

lemma deepClone_result:
  assumes w: "wf_val h w" and ret: "deepClone n w (h, sn) = Return (c, (h', sn'))"
  shows "c = clone_val sn' w \<and> val_addrs w \<subseteq> dom sn'"
proof (cases n)
  case 0
  then show ?thesis using ret by simp
next
  case (Suc m)
  show ?thesis
  proof (cases "is_object h w")
    case False
    then have "\<And>a. w \<noteq> Ref a" using w by (auto simp: wf_val_def)
    then have "clone_val sn' w = w" "val_addrs w = {}" by (cases w; simp)+
    then show ?thesis using ret Suc False by (simp add: deepClone_not_object)
  next
    case True
    then obtain a where wa: "w = Ref a" and a: "a < length h" by (cases w) auto
    show ?thesis
    proof (cases "sn a")
      case (Some d)
      then show ?thesis using ret Suc wa a by (auto simp: deepClone_seen)
    next
      case None
      then show ?thesis
        using deepClone_new_container [of a h sn m c h' sn'] ret Suc wa a by auto
    qed
  qed
qed

lemma deepClone_call:
  assumes w: "wf_val (fst s) w"
  shows "outcome_sat
           (\<lambda>x. extends (fst s) (fst (snd x)) \<and> snd s \<subseteq>\<^sub>m snd (snd x) \<and>
                fst x = clone_val (snd (snd x)) w \<and> val_addrs w \<subseteq> dom (snd (snd x)))
           (\<lambda>h'. True) True (deepClone n w s)"
proof (cases "deepClone n w s")
  case (Return x)
  obtain h sn where s: "s = (h, sn)" by (cases s) auto
  obtain c h' sn' where x: "x = (c, (h', sn'))" by (cases x) auto
  have ret: "deepClone n w (h, sn) = Return (c, (h', sn'))" using Return s x by simp
  have "wf_val h w" using w s by simp
  then have "c = clone_val sn' w \<and> val_addrs w \<subseteq> dom sn'"
    using deepClone_result ret by blast
  then show ?thesis using Return s x deepClone_Return_grows [OF ret] by simp
qed simp_all

lemma cloneElems_populates:
  assumes vs: "\<forall>w \<in> set vs. wf_val h w"
    and ex0: "extends h (fst st)" and c0: "length h \<le> c0" "c0 < length (fst st)"
    and ob0: "fst st ! c0 = Arr []"
  shows "outcome_sat (\<lambda>s. fst s ! c0 = Arr (map (clone_val (snd s)) vs)) (\<lambda>h'. True) True
           (cloneElems (deepClone n) c0 vs st)"
proof -
  let ?I = "\<lambda>pre s. extends h (fst s) \<and> c0 < length (fst s) \<and>
              fst s ! c0 = Arr (map (clone_val (snd s)) pre) \<and>
              (\<forall>w \<in> set pre. val_addrs w \<subseteq> dom (snd s))"
  have "outcome_sat (?I vs) (\<lambda>h'. True) True (cloneElems (deepClone n) c0 vs st)"
  proof (rule cloneElems_rule [where I = ?I])
    show "?I [] st" using ex0 c0 ob0 by simp
  next
    fix pre w post s
    assume vs': "vs = pre @ w # post" and I: "?I pre s"
    have ww: "wf_val (fst s) w" using vs vs' I wf_val_extends by auto
    show "outcome_sat (\<lambda>(c, (h', sn')). ?I (pre @ [w]) (push h' c0 c, sn'))
            (\<lambda>h'. True) True (deepClone n w s)"
    proof (rule outcome_sat_mono [OF deepClone_call [OF ww, of n]])
      fix y :: "val \<times> state"
      assume y: "extends (fst s) (fst (snd y)) \<and> snd s \<subseteq>\<^sub>m snd (snd y) \<and>
                 fst y = clone_val (snd (snd y)) w \<and> val_addrs w \<subseteq> dom (snd (snd y))"
      obtain c h' sn' where yy: "y = (c, (h', sn'))" by (cases y) auto
      have ex: "extends (fst s) h'" and le: "snd s \<subseteq>\<^sub>m sn'" and c: "c = clone_val sn' w"
        and wk: "val_addrs w \<subseteq> dom sn'"
        using y yy by simp_all
      have c0': "c0 < length h'" using I extends_length [OF ex] by simp
      have "map (clone_val sn') pre = map (clone_val (snd s)) pre"
        using I clone_val_stable [OF le] by simp
      moreover have "h' ! c0 = fst s ! c0" using extends_nth [OF ex] I by simp
      ultimately have hc: "h' ! c0 = Arr (map (clone_val sn') pre)" using I by simp
      have pu: "push h' c0 c = h'[c0 := Arr (map (clone_val sn') (pre @ [w]))]"
        using hc c0' c by (simp add: push_def)
      have exh: "extends h h'" using I ex extends_trans by blast
      have 1: "extends h (push h' c0 c)" using exh c0(1) by (rule extends_push)
      have dd: "dom (snd s) \<subseteq> dom sn'" using le by (rule map_le_implies_dom_le)
      have 3: "\<forall>u \<in> set (pre @ [w]). val_addrs u \<subseteq> dom sn'"
      proof
        fix u assume "u \<in> set (pre @ [w])"
        then have "u \<in> set pre \<or> u = w" by auto
        then show "val_addrs u \<subseteq> dom sn'" using I wk dd by blast
      qed
      show "case y of (c, (h', sn')) \<Rightarrow> ?I (pre @ [w]) (push h' c0 c, sn')"
        unfolding yy using 1 3 c0' by (simp add: pu)
    qed simp_all
  qed
  then show ?thesis by (rule outcome_sat_mono) simp_all
qed

lemma cloneProps_populates:
  assumes a: "a < length h" and ha: "h ! a = Obj p ps"
    and ks: "\<forall>k \<in> set keys. wf_val h (prop_val ps k)"
    and np: "''__proto__'' \<notin> set keys"
    and ex0: "extends h (fst st)" and c0: "length h \<le> c0" "c0 < length (fst st)"
    and ob0: "fst st ! c0 = Obj PObject []"
  shows "outcome_sat (\<lambda>s. fst s ! c0 = Obj PObject (cloned_props (snd s) ps keys))
           (\<lambda>h'. True) True (cloneProps (deepClone n) c0 a keys st)"
proof -
  let ?I = "\<lambda>pre s. extends h (fst s) \<and> c0 < length (fst s) \<and>
              fst s ! c0 = Obj PObject (cloned_props (snd s) ps pre) \<and>
              (\<forall>k \<in> set pre. val_addrs (prop_val ps k) \<subseteq> dom (snd s))"
  have "outcome_sat (?I keys) (\<lambda>h'. True) True (cloneProps (deepClone n) c0 a keys st)"
  proof (rule cloneProps_rule [where I = ?I])
    show "?I [] st" using ex0 c0 ob0 by (simp add: cloned_props_def)
  next
    fix pre key post s
    assume ks': "keys = pre @ key # post" and I: "?I pre s"
    let ?w = "prop_val ps key"
    have key: "key \<noteq> ''__proto__''" using np ks' by auto
    have "fst s ! a = Obj p ps" using extends_nth [of h "fst s" a] I a ha by simp
    moreover have "a < length (fst s)" using a extends_length [of h "fst s"] I by simp
    ultimately have g: "get_prop (fst s) a key = ?w" by (simp add: get_prop_def)
    have ww: "wf_val (fst s) ?w" using ks ks' I wf_val_extends by auto
    show "outcome_sat
            (\<lambda>(c, (h', sn')).
               outcome_sat (\<lambda>h''. ?I (pre @ [key]) (h'', sn')) (\<lambda>h'. True) True
                 (put_prop h' c0 key c))
            (\<lambda>h'. True) True (deepClone n (get_prop (fst s) a key) s)"
      unfolding g
    proof (rule outcome_sat_mono [OF deepClone_call [OF ww, of n]])
      fix y :: "val \<times> state"
      assume y: "extends (fst s) (fst (snd y)) \<and> snd s \<subseteq>\<^sub>m snd (snd y) \<and>
                 fst y = clone_val (snd (snd y)) ?w \<and> val_addrs ?w \<subseteq> dom (snd (snd y))"
      obtain c h' sn' where yy: "y = (c, (h', sn'))" by (cases y) auto
      have ex: "extends (fst s) h'" and le: "snd s \<subseteq>\<^sub>m sn'" and c: "c = clone_val sn' ?w"
        and wk: "val_addrs ?w \<subseteq> dom sn'"
        using y yy by simp_all
      have c0': "c0 < length h'" using I extends_length [OF ex] by simp
      have "\<forall>k \<in> set pre. clone_val sn' (prop_val ps k) = clone_val (snd s) (prop_val ps k)"
        using I clone_val_stable [OF le] by simp
      then have "cloned_props sn' ps pre = cloned_props (snd s) ps pre"
        by (rule cloned_stable)
      moreover have "h' ! c0 = fst s ! c0" using extends_nth [OF ex] I by simp
      ultimately have hc: "h' ! c0 = Obj PObject (cloned_props sn' ps pre)" using I by simp
      let ?h'' = "h'[c0 := Obj PObject (cloned_props sn' ps (pre @ [key]))]"
      have put: "put_prop h' c0 key c = Return ?h''"
        using put_prop_copies [OF hc c0' c key] .
      have exh: "extends h h'" using I ex extends_trans by blast
      have 1: "extends h ?h''" using exh c0(1) by (rule extends_update)
      have dd: "dom (snd s) \<subseteq> dom sn'" using le by (rule map_le_implies_dom_le)
      have 3: "\<forall>k \<in> set (pre @ [key]). val_addrs (prop_val ps k) \<subseteq> dom sn'"
      proof
        fix k assume "k \<in> set (pre @ [key])"
        then have "k \<in> set pre \<or> k = key" by auto
        then show "val_addrs (prop_val ps k) \<subseteq> dom sn'" using I wk dd by blast
      qed
      show "case y of (c, (h', sn')) \<Rightarrow>
              outcome_sat (\<lambda>h''. ?I (pre @ [key]) (h'', sn')) (\<lambda>h'. True) True
                (put_prop h' c0 key c)"
        unfolding yy using put 1 3 c0' by simp
    qed simp_all
  qed
  then show ?thesis by (rule outcome_sat_mono) simp_all
qed

text \<open>
  For an object that is not yet in the map, whose elements or fields hold no dangling
  reference, and that has no own enumerable property named \<^verbatim>\<open>__proto__\<close>: when the call
  returns, the new container, allocated at the first free address, is what the
  specification says, with every element or field of the object cloned into it. The
  objects the fields lead to may have the key \<^verbatim>\<open>__proto__\<close>; the condition is on the
  object itself.
\<close>

lemma deepClone_populates:
  assumes a: "a < length h" and None: "sn a = None"
    and ch: "\<forall>w \<in> set (child_vals (h ! a)). wf_val h w"
    and np: "\<not> has_proto_key (h ! a)"
    and ret: "deepClone (Suc n) (Ref a) (h, sn) = Return (r, (h', sn'))"
  shows "r = Ref (length h) \<and> sn' a = Some (length h) \<and> h' ! length h = spec_clone sn' (h ! a)"
proof -
  have 1: "r = Ref (length h) \<and> sn' a = Some (length h)"
    using deepClone_new_container [OF a None ret] by simp
  have 2: "h' ! length h = spec_clone sn' (h ! a)"
  proof (cases "h ! a")
    case (Arr vs)
    have "outcome_sat (\<lambda>s. fst s ! length h = Arr (map (clone_val (snd s)) vs)) (\<lambda>h'. True) True
            (cloneElems (deepClone n) (length h) vs (h @ [Arr []], sn(a \<mapsto> length h)))"
      by (rule cloneElems_populates [where h = h]) (use ch Arr in \<open>simp_all add: extends_append\<close>)
    then show ?thesis
      using ret a None Arr deepClone_unseen [of a h sn n] by (auto split: outcome.splits)
  next
    case (Obj p ps)
    have ks: "\<forall>k \<in> set (object_keys ps). wf_val h (prop_val ps k)" using ch Obj by simp
    have npk: "''__proto__'' \<notin> set (object_keys ps)" using np Obj by simp
    have "outcome_sat (\<lambda>s. fst s ! length h = Obj PObject (cloned_props (snd s) ps (object_keys ps)))
            (\<lambda>h'. True) True
            (cloneProps (deepClone n) (length h) a (object_keys ps)
               (h @ [Obj PObject []], sn(a \<mapsto> length h)))"
      by (rule cloneProps_populates [OF a Obj ks npk]) (simp_all add: extends_append)
    then show ?thesis
      using ret a None Obj deepClone_unseen [of a h sn n] by (auto split: outcome.splits)
  qed
  show ?thesis using 1 2 by simp
qed

lemma clone_plain_object_without_proto_key:
  assumes wf: "wf_heap h" and a: "a < length h" and ob: "h ! a = Obj p ps"
    and np: "\<not> has_proto_key (Obj p ps)"
    and d: "deepClone n (Ref a) (h, Map.empty) = Return (r, (h', sn))"
  shows "r = Ref (length h) \<and> length h < length h' \<and>
         h' ! length h = Obj PObject
           (map (\<lambda>k. (SKey k, True, clone_val sn (prop_val ps k))) (object_keys ps))"
proof -
  obtain m where n: "n = Suc m" using d by (cases n) auto
  have ret: "deepClone (Suc m) (Ref a) (h, Map.empty) = Return (r, (h', sn))" using d n by simp
  have "h ! a \<in> set h" using a by simp
  then have "\<forall>x \<in> refs_of (h ! a). x < length h" using wf by (auto simp: wf_heap_def)
  then have ch: "\<forall>w \<in> set (child_vals (h ! a)). wf_val h w"
    using child_vals_refs [of _ "h ! a"] by (fastforce simp: wf_val_def)
  have "r = Ref (length h) \<and> sn a = Some (length h) \<and> h' ! length h = spec_clone sn (h ! a)"
    using deepClone_populates [OF a _ ch _ ret] np ob by simp
  moreover have "length h < length h'"
    using deepClone_new_container [OF a _ ret] by simp
  ultimately show ?thesis using ob by (simp add: cloned_props_def)
qed

section \<open>Graphs in which no node has the key \<open>__proto__\<close>: what the clone is\<close>

text \<open>
  What claims C3, C8, C9 and C10 say does hold where no node reachable from the input has
  an own enumerable property named \<^verbatim>\<open>__proto__\<close>: there the call returns, the clone of
  an object is a plain object with exactly the keys of \<^verbatim>\<open>Object.keys\<close> of the object,
  and an acyclic input (one that is deep-equal to itself at some depth \<open>n\<close>) is
  deep-equal to its clone and to the clone of its clone.
\<close>

lemma clone_returns_without_proto_key:
  assumes wf: "wf_heap h" and v: "wf_val h v"
    and np: "\<forall>a \<in> traversed h v. \<not> has_proto_key (h ! a)" and n: "length h < n"
  shows "\<exists>r h'. clone n v h = Return (r, h')"
proof (cases "deepClone n v (h, Map.empty)")
  case (Return x)
  then show ?thesis by (cases x) (auto simp: clone_def)
next
  case (Throw e h')
  then show ?thesis using deepClone_top [OF wf v np, of n] by simp
next
  case Timeout
  then have "clone n v h = Timeout" by (simp add: clone_def)
  then show ?thesis using clone_terminates_aux [OF wf n, of v] by simp
qed

lemma object_keys_cloned_props: "object_keys (cloned_props sn ps keys) = keys"
  by (induction keys) (auto simp: cloned_props_def)

lemma own_prop_cloned_props:
  "k \<in> set keys \<Longrightarrow> own_prop (cloned_props sn ps keys) k = Some (clone_val sn (prop_val ps k))"
  by (induction keys) (auto simp: cloned_props_def)

lemma prop_val_cloned_props:
  "k \<in> set keys \<Longrightarrow> prop_val (cloned_props sn ps keys) k = clone_val sn (prop_val ps k)"
  by (simp add: prop_val_def own_prop_cloned_props)

lemma has_proto_key_spec_clone: "has_proto_key (spec_clone sn ob) = has_proto_key ob"
  by (cases ob) (simp_all add: object_keys_cloned_props)

lemma list_all2_same_iff: "list_all2 P xs xs \<longleftrightarrow> (\<forall>x \<in> set xs. P x x)"
  by (induction xs) auto

lemma clone_deep_equal_aux:
  assumes ex: "extends h h'" and dom: "dom sn \<subseteq> {..<length h}"
    and ran: "ran sn \<subseteq> {..<length h'}"
    and img: "\<forall>a \<in> dom sn. h' ! the (sn a) = spec_clone sn (h ! a) \<and>
           (\<forall>w \<in> set (child_vals (h ! a)). val_addrs w \<subseteq> dom sn)"
  shows "deep_equal n h v v \<Longrightarrow> val_addrs v \<subseteq> dom sn \<Longrightarrow> deep_equal n h' v (clone_val sn v)"
proof (induction n arbitrary: v)
  case 0
  then show ?case by simp
next
  case (Suc n)
  have len: "length h \<le> length h'" using ex by (rule extends_length)
  show ?case
  proof (cases v)
    case (Ref a)
    then have ad: "a \<in> dom sn" using Suc.prems(2) by simp
    then obtain c where c: "sn a = Some c" by auto
    have a: "a < length h" using ad dom by auto
    have cl: "c < length h'" using c ran by (auto simp: ran_def)
    have ha: "h' ! a = h ! a" using extends_nth [OF ex a] .
    have hc: "h' ! c = spec_clone sn (h ! a)" using img ad c by force
    have kn: "\<forall>w \<in> set (child_vals (h ! a)). val_addrs w \<subseteq> dom sn" using img ad by blast
    show ?thesis
    proof (cases "h ! a")
      case (Arr xs)
      have "\<forall>x \<in> set xs. deep_equal n h x x"
        using Suc.prems(1) Ref a Arr by (simp add: list_all2_same_iff)
      then have "\<forall>x \<in> set xs. deep_equal n h' x (clone_val sn x)"
        using Suc.IH kn Arr by simp
      then have "list_all2 (deep_equal n h') xs (map (clone_val sn) xs)"
        by (simp add: list_all2_map2 list_all2_same_iff)
      then show ?thesis using Ref c a cl len ha hc Arr by simp
    next
      case (Obj p ps)
      let ?ks = "object_keys ps"
      have keys: "object_keys (cloned_props sn ps ?ks) = ?ks"
        by (rule object_keys_cloned_props)
      have ga: "get_prop h' a k = prop_val ps k" for k
        using ha Obj a len by (simp add: get_prop_def)
      have gc: "get_prop h' c k = clone_val sn (prop_val ps k)" if "k \<in> set ?ks" for k
        using hc Obj cl prop_val_cloned_props [OF that, of sn ps] by (simp add: get_prop_def)
      have "\<forall>k \<in> set ?ks. deep_equal n h (prop_val ps k) (prop_val ps k)"
        using Suc.prems(1) Ref a Obj by (simp add: list_all_iff get_prop_def)
      then have "\<forall>k \<in> set ?ks. deep_equal n h' (prop_val ps k) (clone_val sn (prop_val ps k))"
        using Suc.IH kn Obj by simp
      then have "list_all (\<lambda>k. deep_equal n h' (get_prop h' a k) (get_prop h' c k)) ?ks"
        using ga gc by (simp add: list_all_iff)
      then show ?thesis using Ref c a cl len ha hc Obj keys by simp
    qed
  next
    case Undefined then show ?thesis by simp
  next
    case Null then show ?thesis by simp
  next
    case (Bool b) then show ?thesis by simp
  next
    case (Num i) then show ?thesis by simp
  next
    case (Str s) then show ?thesis by simp
  next
    case (Sym s) then show ?thesis by simp
  next
    case (Fn f fs) then show ?thesis by simp
  qed
qed

lemma clone_deep_equal_without_proto_key:
  assumes wf: "wf_heap h" and v: "wf_val h v"
    and np: "\<forall>a \<in> traversed h v. \<not> has_proto_key (h ! a)"
    and ac: "deep_equal n h v v"
    and ret: "clone m v h = Return (r, h')"
  shows "deep_equal n h' v r"
proof -
  obtain sn where d: "deepClone m v (h, Map.empty) = Return (r, (h', sn))"
    using ret by (auto simp: clone_def split: outcome.splits)
  note iso = deepClone_isomorphic [OF wf v np d]
  have ex: "extends h h'" using deepClone_Return_grows(1) [OF d] .
  have dom: "dom sn \<subseteq> {..<length h}"
    using iso(1) traversed_closed [OF wf, of v] by auto
  have ran: "ran sn \<subseteq> {..<length h'}" using iso(3) by auto
  have vd: "val_addrs v \<subseteq> dom sn"
    using v iso(1) by (auto simp: wf_val_def intro: traversed.root)
  have "deep_equal n h' v (clone_val sn v)"
    using clone_deep_equal_aux [OF ex dom ran iso(5) ac vd] .
  then show ?thesis using iso(4) by simp
qed

lemma distinct_object_keys: "distinct (map fst ps) \<Longrightarrow> distinct (object_keys ps)"
proof (induction ps rule: object_keys.induct)
  case (2 k e v ps)
  have "k \<notin> set (object_keys ps)" if "SKey k \<notin> fst ` set ps"
    using that by (induction ps rule: object_keys.induct) (auto split: if_splits)
  then show ?case using 2 by auto
qed simp_all

lemma distinct_keys_spec_clone: "distinct_keys ob \<Longrightarrow> distinct_keys (spec_clone sn ob)"
proof (cases ob)
  case (Obj p ps)
  assume "distinct_keys ob"
  then have "distinct (object_keys ps)" using Obj distinct_object_keys by simp
  then have "distinct (map SKey (object_keys ps))"
    by (simp add: distinct_map inj_on_def)
  moreover have "map fst (cloned_props sn ps (object_keys ps)) = map SKey (object_keys ps)"
    by (simp add: cloned_props_def comp_def)
  ultimately show ?thesis using Obj by simp
qed simp

lemma traversed_reach: "traversed h v \<subseteq> reach h v"
proof
  fix a assume "a \<in> traversed h v"
  then show "a \<in> reach h v"
  proof induction
    case (root a)
    then show ?case by (rule reach.root)
  next
    case (step a w b)
    have "b \<in> refs_of (h ! a)" using child_vals_refs [OF step.hyps(2)] step.hyps(3) by auto
    then show ?case using reach.step [OF step.IH _ step.hyps(4)] by blast
  qed
qed

lemma clone_wf_heap:
  assumes wf: "wf_heap h" and v: "wf_val h v"
    and np: "\<forall>a \<in> traversed h v. \<not> has_proto_key (h ! a)"
    and d: "deepClone m v (h, Map.empty) = Return (r, (h', sn))"
  shows "wf_heap h'" and "wf_val h' r"
    and "\<forall>c \<in> traversed h' r. \<not> has_proto_key (h' ! c)"
proof -
  note iso = deepClone_isomorphic [OF wf v np d]
  have ex: "extends h h'" using deepClone_Return_grows(1) [OF d] .
  have len: "length h \<le> length h'" using ex by (rule extends_length)
  have ret: "clone m v h = Return (r, h')" using d by (simp add: clone_def)
  obtain sn' where sh: "shape h (h', sn')" and rf: "val_addrs r \<subseteq> fresh h h'"
    using clone_shape [OF wf v, of m] ret by auto
  show "wf_val h' r" using rf by (auto simp: wf_val_def fresh_def)
  have img: "\<exists>a \<in> traversed h v. h' ! i = spec_clone sn (h ! a)" if fi: "i \<in> fresh h h'" for i
  proof -
    have "i \<in> ran sn" using iso(3) fi by (simp add: fresh_def)
    then obtain a where a: "sn a = Some i" by (auto simp: ran_def)
    then have ad: "a \<in> dom sn" by auto
    then have "h' ! i = spec_clone sn (h ! a)" using iso(5) a by force
    then show ?thesis using ad iso(1) by blast
  qed
  have "distinct_keys (h' ! i) \<and> (\<forall>x \<in> refs_of (h' ! i). x < length h')" if i: "i < length h'" for i
  proof (cases "i < length h")
    case True
    then have "h' ! i = h ! i" using ex by (simp add: extends_nth)
    moreover have "h ! i \<in> set h" using True by simp
    ultimately show ?thesis using wf len by (fastforce simp: wf_heap_def)
  next
    case False
    then have fi: "i \<in> fresh h h'" using i by (simp add: fresh_def)
    then have "refs_of (h' ! i) \<subseteq> fresh h h'" using sh by (simp add: shape_def)
    then have r: "\<forall>x \<in> refs_of (h' ! i). x < length h'" by (auto simp: fresh_def)
    obtain a where a: "a \<in> traversed h v" and hi: "h' ! i = spec_clone sn (h ! a)"
      using img [OF fi] by blast
    have "a < length h" using a traversed_closed [OF wf, of v] by auto
    then have "distinct_keys (h ! a)" using wf by (auto simp: wf_heap_def)
    then have "distinct_keys (h' ! i)" using hi distinct_keys_spec_clone by simp
    then show ?thesis using r by simp
  qed
  then show "wf_heap h'" unfolding wf_heap_def by (metis in_set_conv_nth)
  show "\<forall>c \<in> traversed h' r. \<not> has_proto_key (h' ! c)"
  proof
    fix c assume "c \<in> traversed h' r"
    then have "c \<in> reach h' r" using traversed_reach by blast
    moreover have "reach h' r \<subseteq> {length h..<length h'}"
      using clone_independent_aux [OF wf v ret] by simp
    ultimately have "c \<in> fresh h h'" by (auto simp: fresh_def)
    then obtain a where a: "a \<in> traversed h v" and hc: "h' ! c = spec_clone sn (h ! a)"
      using img by blast
    then show "\<not> has_proto_key (h' ! c)" using np by (simp add: has_proto_key_spec_clone)
  qed
qed

lemma clone_clone_deep_equal_aux:
  assumes ex: "extends h h''" and dom: "dom sn \<subseteq> {..<length h}"
    and img: "\<forall>a \<in> dom sn. h'' ! the (sn a) = spec_clone sn (h ! a) \<and>
           (\<forall>w \<in> set (child_vals (h ! a)). val_addrs w \<subseteq> dom sn)"
    and ran2: "ran sn2 \<subseteq> {..<length h''}"
    and img2: "\<forall>a \<in> dom sn2. h'' ! the (sn2 a) = spec_clone sn2 (h'' ! a) \<and>
           (\<forall>w \<in> set (child_vals (h'' ! a)). val_addrs w \<subseteq> dom sn2)"
  shows "deep_equal n h v v \<Longrightarrow> val_addrs v \<subseteq> dom sn \<Longrightarrow>
         val_addrs (clone_val sn v) \<subseteq> dom sn2 \<Longrightarrow>
         deep_equal n h'' v (clone_val sn2 (clone_val sn v))"
proof (induction n arbitrary: v)
  case 0
  then show ?case by simp
next
  case (Suc n)
  have len: "length h \<le> length h''" using ex by (rule extends_length)
  show ?case
  proof (cases v)
    case (Ref a)
    then have ad: "a \<in> dom sn" using Suc.prems(2) by simp
    then obtain c where c: "sn a = Some c" by auto
    have cd: "c \<in> dom sn2" using Suc.prems(3) Ref c by simp
    then obtain c2 where c2: "sn2 c = Some c2" by auto
    have a: "a < length h" using ad dom by auto
    have cl: "c2 < length h''" using c2 ran2 by (auto simp: ran_def)
    have ha: "h'' ! a = h ! a" using extends_nth [OF ex a] .
    have hc: "h'' ! c = spec_clone sn (h ! a)" using img ad c by force
    have hc2: "h'' ! c2 = spec_clone sn2 (h'' ! c)" using img2 cd c2 by force
    have kn: "\<forall>w \<in> set (child_vals (h ! a)). val_addrs w \<subseteq> dom sn" using img ad by blast
    have kn2: "\<forall>w \<in> set (child_vals (h'' ! c)). val_addrs w \<subseteq> dom sn2" using img2 cd by blast
    have res: "clone_val sn2 (clone_val sn v) = Ref c2" using Ref c c2 by simp
    show ?thesis
    proof (cases "h ! a")
      case (Arr xs)
      have k2: "\<forall>x \<in> set xs. val_addrs (clone_val sn x) \<subseteq> dom sn2"
        using kn2 hc Arr by simp
      have "\<forall>x \<in> set xs. deep_equal n h x x"
        using Suc.prems(1) Ref a Arr by (simp add: list_all2_same_iff)
      then have "\<forall>x \<in> set xs. deep_equal n h'' x (clone_val sn2 (clone_val sn x))"
        using Suc.IH kn k2 Arr by simp
      then have "list_all2 (deep_equal n h'') xs (map (clone_val sn2) (map (clone_val sn) xs))"
        by (simp add: list_all2_map2 list_all2_same_iff)
      moreover have "h'' ! c2 = Arr (map (clone_val sn2) (map (clone_val sn) xs))"
        using hc2 hc Arr by simp
      ultimately show ?thesis using res Ref a cl len ha Arr by simp
    next
      case (Obj p ps)
      let ?ks = "object_keys ps"
      let ?f = "\<lambda>k. clone_val sn (prop_val ps k)"
      let ?qs = "cloned_props sn ps ?ks"
      have hcq: "h'' ! c = Obj PObject ?qs" using hc Obj by simp
      have kq: "object_keys ?qs = ?ks" by (rule object_keys_cloned_props)
      have hc2q: "h'' ! c2 = Obj PObject (cloned_props sn2 ?qs ?ks)"
        using hc2 hcq kq by simp
      have ga: "get_prop h'' a k = prop_val ps k" for k
        using ha Obj a len by (simp add: get_prop_def)
      have pq: "prop_val ?qs k = ?f k" if "k \<in> set ?ks" for k
        using that by (rule prop_val_cloned_props)
      have gc: "get_prop h'' c2 k = clone_val sn2 (?f k)" if "k \<in> set ?ks" for k
        using hc2q cl prop_val_cloned_props [OF that, of sn2 ?qs] pq [OF that]
        by (simp add: get_prop_def)
      have k2: "\<forall>k \<in> set ?ks. val_addrs (?f k) \<subseteq> dom sn2"
      proof
        fix k assume k: "k \<in> set ?ks"
        have "prop_val ?qs k \<in> set (child_vals (h'' ! c))" using hcq kq k by simp
        then show "val_addrs (?f k) \<subseteq> dom sn2" using kn2 pq [OF k] by auto
      qed
      have "\<forall>k \<in> set ?ks. deep_equal n h (prop_val ps k) (prop_val ps k)"
        using Suc.prems(1) Ref a Obj by (simp add: list_all_iff get_prop_def)
      then have "\<forall>k \<in> set ?ks. deep_equal n h'' (prop_val ps k) (clone_val sn2 (?f k))"
        using Suc.IH kn k2 Obj by simp
      then have "list_all (\<lambda>k. deep_equal n h'' (get_prop h'' a k) (get_prop h'' c2 k)) ?ks"
        using ga gc by (simp add: list_all_iff)
      moreover have "object_keys (cloned_props sn2 ?qs ?ks) = ?ks"
        by (rule object_keys_cloned_props)
      ultimately show ?thesis using res Ref a cl len ha hc2q Obj by simp
    qed
  next
    case Undefined then show ?thesis by simp
  next
    case Null then show ?thesis by simp
  next
    case (Bool b) then show ?thesis by simp
  next
    case (Num i) then show ?thesis by simp
  next
    case (Str s) then show ?thesis by simp
  next
    case (Sym s) then show ?thesis by simp
  next
    case (Fn f fs) then show ?thesis by simp
  qed
qed

lemma clone_clone_deep_equal_without_proto_key:
  assumes wf: "wf_heap h" and v: "wf_val h v"
    and np: "\<forall>a \<in> traversed h v. \<not> has_proto_key (h ! a)"
    and ac: "deep_equal n h v v"
    and ret: "clone m v h = Return (r, h')"
    and ret2: "clone m2 r h' = Return (r2, h'')"
  shows "deep_equal n h'' v r2"
proof -
  obtain sn where d: "deepClone m v (h, Map.empty) = Return (r, (h', sn))"
    using ret by (auto simp: clone_def split: outcome.splits)
  obtain sn2 where d2: "deepClone m2 r (h', Map.empty) = Return (r2, (h'', sn2))"
    using ret2 by (auto simp: clone_def split: outcome.splits)
  note iso = deepClone_isomorphic [OF wf v np d]
  have wf': "wf_heap h'" and r': "wf_val h' r"
    and np2: "\<forall>c \<in> traversed h' r. \<not> has_proto_key (h' ! c)"
    using clone_wf_heap [OF wf v np d] by simp_all
  note iso2 = deepClone_isomorphic [OF wf' r' np2 d2]
  have ex: "extends h h'" using deepClone_Return_grows(1) [OF d] .
  have ex2: "extends h' h''" using deepClone_Return_grows(1) [OF d2] .
  have ex3: "extends h h''" using ex ex2 by (rule extends_trans)
  have dom: "dom sn \<subseteq> {..<length h}"
    using iso(1) traversed_closed [OF wf, of v] by auto
  have dom2: "dom sn2 \<subseteq> {..<length h'}"
    using iso2(1) traversed_closed [OF wf', of r] by auto
  have ransn: "ran sn \<subseteq> {..<length h'}" using iso(3) by auto
  have img: "\<forall>a \<in> dom sn. h'' ! the (sn a) = spec_clone sn (h ! a) \<and>
           (\<forall>w \<in> set (child_vals (h ! a)). val_addrs w \<subseteq> dom sn)"
  proof
    fix a assume a: "a \<in> dom sn"
    then obtain c where c: "sn a = Some c" by auto
    then have "c < length h'" using ransn by (auto simp: ran_def)
    then have "h'' ! c = h' ! c" using ex2 by (simp add: extends_nth)
    then show "h'' ! the (sn a) = spec_clone sn (h ! a) \<and>
           (\<forall>w \<in> set (child_vals (h ! a)). val_addrs w \<subseteq> dom sn)"
      using iso(5) a c by force
  qed
  have img2: "\<forall>a \<in> dom sn2. h'' ! the (sn2 a) = spec_clone sn2 (h'' ! a) \<and>
           (\<forall>w \<in> set (child_vals (h'' ! a)). val_addrs w \<subseteq> dom sn2)"
  proof
    fix a assume a: "a \<in> dom sn2"
    then have "a < length h'" using dom2 by auto
    then have "h'' ! a = h' ! a" using ex2 by (simp add: extends_nth)
    then show "h'' ! the (sn2 a) = spec_clone sn2 (h'' ! a) \<and>
           (\<forall>w \<in> set (child_vals (h'' ! a)). val_addrs w \<subseteq> dom sn2)"
      using iso2(5) a by simp
  qed
  have ran2: "ran sn2 \<subseteq> {..<length h''}" using iso2(3) by auto
  have vd: "val_addrs v \<subseteq> dom sn"
    using v iso(1) by (auto simp: wf_val_def intro: traversed.root)
  have rd: "val_addrs (clone_val sn v) \<subseteq> dom sn2"
    using r' iso(4) iso2(1) by (auto simp: wf_val_def intro: traversed.root)
  have "deep_equal n h'' v (clone_val sn2 (clone_val sn v))"
    using clone_clone_deep_equal_aux [OF ex3 dom img ran2 img2 ac vd rd] .
  then show ?thesis using iso(4) iso2(4) by simp
qed

end
